theory Spec2Isabelle
  imports Complex_Main "HOL-Library.Multiset" "HOL-Library.Stream"
begin

section \<open>Dates and ISO weeks\<close>

text \<open>
  The program buckets everything by \<^verbatim>\<open>get_year_week(dt)\<close>, which returns the first two
  components of \<^verbatim>\<open>dt.isocalendar()\<close>. A Python \<^verbatim>\<open>datetime\<close> is a record of its
  calendar fields; \<open>utcoffset\<close> is \<open>None\<close> for a naive value and the offset in seconds
  for an aware one. \<^verbatim>\<open>isocalendar\<close> is the algorithm of CPython's \<^verbatim>\<open>datetime\<close> module
  (\<^verbatim>\<open>_is_leap\<close>, \<^verbatim>\<open>_days_before_year\<close>, \<^verbatim>\<open>_days_before_month\<close>, \<^verbatim>\<open>_ymd2ord\<close>,
  \<^verbatim>\<open>_isoweek1monday\<close>, \<^verbatim>\<open>date.isocalendar\<close>), transcribed function by function.
  Python's \<^verbatim>\<open>//\<close> and \<^verbatim>\<open>%\<close> round towards minus infinity, as \<open>div\<close> and \<open>mod\<close> on \<open>int\<close> do.
\<close>


record datetime =
  year :: int
  month :: int
  day :: int
  hour :: int
  minute :: int
  second :: int
  microsecond :: int
  utcoffset :: "int option"

definition is_leap :: "int \<Rightarrow> bool" where
  "is_leap y = (y mod 4 = 0 \<and> (y mod 100 \<noteq> 0 \<or> y mod 400 = 0))"

definition days_before_year :: "int \<Rightarrow> int" where
  "days_before_year y = (let p = y - 1 in p * 365 + p div 4 - p div 100 + p div 400)"

definition DAYS_IN_MONTH :: "int list" where
  "DAYS_IN_MONTH = [-1, 31, 28, 31, 30, 31, 30, 31, 31, 30, 31, 30, 31]"

definition DAYS_BEFORE_MONTH :: "int list" where
  "DAYS_BEFORE_MONTH = [-1, 0, 31, 59, 90, 120, 151, 181, 212, 243, 273, 304, 334]"

definition days_in_month :: "int \<Rightarrow> int \<Rightarrow> int" where
  "days_in_month y m = (if m = 2 \<and> is_leap y then 29 else DAYS_IN_MONTH ! nat m)"

definition days_before_month :: "int \<Rightarrow> int \<Rightarrow> int" where
  "days_before_month y m = DAYS_BEFORE_MONTH ! nat m + (if m > 2 \<and> is_leap y then 1 else 0)"

definition ymd2ord :: "int \<Rightarrow> int \<Rightarrow> int \<Rightarrow> int" where
  "ymd2ord y m d = days_before_year y + days_before_month y m + d"

definition isoweek1monday :: "int \<Rightarrow> int" where
  "isoweek1monday y =
     (let firstday = ymd2ord y 1 1;
          firstweekday = (firstday + 6) mod 7;
          week1monday = firstday - firstweekday
      in if firstweekday > 3 then week1monday + 7 else week1monday)"

definition isocalendar :: "datetime \<Rightarrow> int \<times> int \<times> int" where
  "isocalendar dt =
     (let y = year dt;
          week1monday = isoweek1monday y;
          today = ymd2ord (year dt) (month dt) (day dt);
          week = (today - week1monday) div 7;
          wday = (today - week1monday) mod 7
      in if week < 0 then
           (let y' = y - 1;
                week1monday' = isoweek1monday y';
                week' = (today - week1monday') div 7;
                wday' = (today - week1monday') mod 7
            in (y', week' + 1, wday' + 1))
         else if week \<ge> 52 \<and> today \<ge> isoweek1monday (y + 1) then (y + 1, 0 + 1, wday + 1)
         else (y, week + 1, wday + 1))"

definition get_year_week :: "datetime \<Rightarrow> int \<times> int" where
  "get_year_week dt = (case isocalendar dt of (y, week, _) \<Rightarrow> (y, week))"

definition valid_date :: "datetime \<Rightarrow> bool" where
  "valid_date dt = (1 \<le> year dt \<and> year dt \<le> 9999 \<and> 1 \<le> month dt \<and> month dt \<le> 12
      \<and> 1 \<le> day dt \<and> day dt \<le> days_in_month (year dt) (month dt))"



definition toordinal :: "datetime \<Rightarrow> int" where
  "toordinal dt = ymd2ord (year dt) (month dt) (day dt)"

definition weekday_of :: "int \<Rightarrow> int" where
  "weekday_of n = (n + 6) mod 7"

definition first_thursday :: "int \<Rightarrow> int" where
  "first_thursday y = (let jan1 = ymd2ord y 1 1 in jan1 + (3 - weekday_of jan1) mod 7)"

definition week1_start :: "int \<Rightarrow> int" where
  "week1_start y = first_thursday y - 3"

definition in_iso_week :: "int \<Rightarrow> int \<times> int \<Rightarrow> bool" where
  "in_iso_week n k = (case k of (Y, W) \<Rightarrow>
      1 \<le> W \<and> week1_start Y + 7 * (W - 1) \<le> n \<and> n < week1_start Y + 7 * W
      \<and> n < week1_start (Y + 1))"

definition datetime :: "int \<Rightarrow> int \<Rightarrow> int \<Rightarrow> int \<Rightarrow> int \<Rightarrow> int \<Rightarrow> datetime" where
  "datetime y m d hh mm ss =
     \<lparr>year = y, month = m, day = d, hour = hh, minute = mm, second = ss,
      microsecond = 0, utcoffset = None\<rparr>"

section \<open>JSON values, library calls and errors\<close>

text \<open>
  \<^verbatim>\<open>json.load\<close> returns a Python value built from dicts, lists, strings, numbers, booleans
  and \<^verbatim>\<open>None\<close>. A dict is an association list with distinct keys, in insertion order.
  Of a number the program only ever asks whether it is zero, so one constructor stands
  for both \<^verbatim>\<open>int\<close> and \<^verbatim>\<open>float\<close>.
\<close>

datatype json =
    JNull
  | JBool bool
  | JNum int
  | JStr string
  | JArr "json list"
  | JObj "(string \<times> json) list"

text \<open>The exceptions the modelled code can raise or catch.\<close>

datatype error =
    TypeError
  | KeyError
  | ValueError
  | UnboundLocalError
  | IndexError
  | OSError
  | OverflowError
  | UnicodeDecodeError
  | RecursionError
  | OtherException

text \<open>
  The standard-library and third-party calls whose results the program only passes on.
  \<open>None\<close> and \<open>Inl\<close> stand for the exception the call raises on that argument:
  \<^item> \<open>strptime_history s\<close> is \<^verbatim>\<open>datetime.datetime.strptime(s, '%Y-%m-%dT%H:%M:%SZ')\<close>
    (\<^verbatim>\<open>ValueError\<close>);
  \<^item> \<open>fromisoformat s\<close> is \<^verbatim>\<open>datetime.datetime.fromisoformat(s)\<close>;
  \<^item> \<open>strptime_exif s\<close> is \<^verbatim>\<open>datetime.datetime.strptime(s, '%Y:%m:%d %H:%M:%S')\<close>;
  \<^item> \<open>fromtimestamp t\<close> is \<^verbatim>\<open>datetime.datetime.fromtimestamp(t)\<close>, the local time of
    a file's modification time; it raises \<^verbatim>\<open>ValueError\<close>, \<^verbatim>\<open>OverflowError\<close> or
    \<^verbatim>\<open>OSError\<close> on a time outside the range it supports.
\<close>

record lib =
  strptime_history :: "string \<Rightarrow> datetime option"
  fromisoformat :: "string \<Rightarrow> datetime option"
  strptime_exif :: "string \<Rightarrow> datetime option"
  fromtimestamp :: "rat \<Rightarrow> error + datetime"

text \<open>What \<^verbatim>\<open>print\<close> writes: one value per message of the source.\<close>

datatype diagnostic =
    SkippingInvalidJSON string
  | SkippingUnexpectedFormat string
  | FailedToParseTimestamp string

type_synonym week = "int \<times> int"

text \<open>
  \<^verbatim>\<open>d.setdefault(k, []).append(v)\<close> on a dict of lists: a missing key is added at the end
  with the one-element list, a present key gets \<open>v\<close> appended to its list.
\<close>

fun setdefault_append :: "'k \<Rightarrow> 'v \<Rightarrow> ('k \<times> 'v list) list \<Rightarrow> ('k \<times> 'v list) list" where
  "setdefault_append k v [] = [(k, [v])]"
| "setdefault_append k v ((k', vs) # d) =
     (if k' = k then (k', vs @ [v]) # d else (k', vs) # setdefault_append k v d)"

text \<open>A dict of lists none of which is empty.\<close>

definition no_empty_bucket :: "('k \<times> 'v list) list \<Rightarrow> bool" where
  "no_empty_bucket d = list_all (\<lambda>kv. snd kv \<noteq> []) d"

text \<open>\<^verbatim>\<open>d[k]\<close> on a dict.\<close>

definition subscript :: "('k \<times> 'v) list \<Rightarrow> 'k \<Rightarrow> error + 'v" where
  "subscript d k = (case map_of d k of None \<Rightarrow> Inl KeyError | Some v \<Rightarrow> Inr v)"

text \<open>The list a dict of lists holds for a key, empty when the key is missing.\<close>

definition bucket :: "('k \<times> 'v list) list \<Rightarrow> 'k \<Rightarrow> 'v list" where
  "bucket d k = (case map_of d k of None \<Rightarrow> [] | Some vs \<Rightarrow> vs)"

text \<open>\<^verbatim>\<open>d.get(k)\<close> on a dict: \<^verbatim>\<open>None\<close> for a missing key.\<close>

definition dict_get :: "(string \<times> json) list \<Rightarrow> string \<Rightarrow> json" where
  "dict_get d k = (case map_of d k of None \<Rightarrow> JNull | Some v \<Rightarrow> v)"

text \<open>Python's truth value of an object, and \<^verbatim>\<open>a or b\<close>.\<close>

definition truthy :: "json \<Rightarrow> bool" where
  "truthy v = (case v of JNull \<Rightarrow> False | JBool b \<Rightarrow> b | JNum n \<Rightarrow> n \<noteq> 0
     | JStr s \<Rightarrow> s \<noteq> [] | JArr xs \<Rightarrow> xs \<noteq> [] | JObj kv \<Rightarrow> kv \<noteq> [])"

definition py_or :: "json \<Rightarrow> json \<Rightarrow> json" where
  "py_or a b = (if truthy a then a else b)"

text \<open>\<^verbatim>\<open>p in s\<close> on strings (substring test) and \<^verbatim>\<open>s.replace('Z', '+00:00')\<close>.\<close>

primrec str_contains :: "string \<Rightarrow> string \<Rightarrow> bool" where
  "str_contains [] p = (p = [])"
| "str_contains (c # cs) p = (take (length p) (c # cs) = p \<or> str_contains cs p)"

definition replace_Z :: "string \<Rightarrow> string" where
  "replace_Z s = concat (map (\<lambda>c. if c = CHR ''Z'' then ''+00:00'' else [c]) s)"

section \<open>Listening history\<close>

text \<open>
  One file matched by \<^verbatim>\<open>Path(folder).glob('Streams*.json')\<close>: its name and what
  lines 24 to 26 do on it. \<^verbatim>\<open>json.load\<close> returns a value or raises
  \<^verbatim>\<open>JSONDecodeError\<close>, which line 27 catches; \<open>LoadRaises e\<close> is any other exception
  of \<^verbatim>\<open>open\<close> or \<^verbatim>\<open>json.load\<close>, which nothing catches: \<^verbatim>\<open>OSError\<close> on a file that
  cannot be opened, \<^verbatim>\<open>UnicodeDecodeError\<close> on bytes that are not UTF-8,
  \<^verbatim>\<open>RecursionError\<close> on nesting too deep.
\<close>

datatype json_load = JSONDecodeError | LoadRaises error | Loaded json

type_synonym history_file = "string \<times> json_load"

text \<open>The dict stored per listening event (lines 62 to 68).\<close>

record event =
  artist :: json
  track :: json
  timestamp :: datetime
  ms_played :: json
  uri :: json

text \<open>
  The state of \<^verbatim>\<open>load_spotify_history\<close>: the dict being built, the local variable
  \<^verbatim>\<open>dt\<close> (\<open>None\<close> while it is unbound) and what has been printed so far.
\<close>

record ingest_state =
  tracks_by_week :: "(week \<times> event list) list"
  dt_var :: "datetime option"
  stdout :: "diagnostic list"

definition possible_list_keys :: "string list" where
  "possible_list_keys = [''streaming_history'', ''playback'', ''plays'']"

text \<open>Lines 31 to 36: an object is replaced by the first listed field of it that is a list.\<close>

fun first_list_key :: "(string \<times> json) list \<Rightarrow> string list \<Rightarrow> json option" where
  "first_list_key kv [] = None"
| "first_list_key kv (key # keys) =
     (case map_of kv key of Some (JArr xs) \<Rightarrow> Some (JArr xs) | _ \<Rightarrow> first_list_key kv keys)"

definition unwrap_data :: "json \<Rightarrow> json" where
  "unwrap_data data =
     (case data of
        JObj kv \<Rightarrow> (case first_list_key kv possible_list_keys of Some l \<Rightarrow> l | None \<Rightarrow> data)
      | _ \<Rightarrow> data)"

text \<open>
  Line 43, \<^verbatim>\<open>'ts' not in entry\<close>: a key test on a dict, a membership test on a list, a
  substring test on a string, and a \<^verbatim>\<open>TypeError\<close> on a number, a boolean or \<^verbatim>\<open>None\<close>.
\<close>

definition has_ts :: "json \<Rightarrow> error + bool" where
  "has_ts entry =
     (case entry of
        JObj kv \<Rightarrow> Inr (''ts'' \<in> set (map fst kv))
      | JArr xs \<Rightarrow> Inr (JStr ''ts'' \<in> set xs)
      | JStr s \<Rightarrow> Inr (str_contains s ''ts'')
      | _ \<Rightarrow> Inl TypeError)"

text \<open>\<^verbatim>\<open>entry['ts']\<close>: only a dict can be indexed by a string.\<close>

definition entry_ts :: "json \<Rightarrow> error + json" where
  "entry_ts entry = (case entry of JObj kv \<Rightarrow> subscript kv ''ts'' | _ \<Rightarrow> Inl TypeError)"

text \<open>
  Lines 45 to 51. \<^verbatim>\<open>strptime\<close> raises \<^verbatim>\<open>TypeError\<close> on a value that is not a string,
  which \<^verbatim>\<open>except ValueError\<close> lets through. When both parses fail the message is printed
  and nothing else happens: \<^verbatim>\<open>dt\<close> keeps whatever it held.
\<close>

definition parse_ts :: "lib \<Rightarrow> json \<Rightarrow> ingest_state \<Rightarrow> error + ingest_state" where
  "parse_ts L v st =
     (case v of
        JStr s \<Rightarrow>
          (case strptime_history L s of
             Some d \<Rightarrow> Inr (st\<lparr>dt_var := Some d\<rparr>)
           | None \<Rightarrow>
               (case fromisoformat L (replace_Z s) of
                  Some d \<Rightarrow> Inr (st\<lparr>dt_var := Some d\<rparr>)
                | None \<Rightarrow> Inr (st\<lparr>stdout := stdout st @ [FailedToParseTimestamp s]\<rparr>)))
      | _ \<Rightarrow> Inl TypeError)"

text \<open>Lines 55 to 68, for an entry that is a dict and a bound \<^verbatim>\<open>dt\<close>.\<close>

definition make_event :: "(string \<times> json) list \<Rightarrow> datetime \<Rightarrow> event" where
  "make_event kv d =
     (let track_name = dict_get kv ''master_metadata_track_name'';
          artist_name = dict_get kv ''master_metadata_album_artist_name'';
          fallback = (track_name = JNull \<or> artist_name = JNull);
          track_name' = (if fallback
             then py_or (py_or track_name (dict_get kv ''episode_name'')) (JStr ''Unknown Track'')
             else track_name);
          artist_name' = (if fallback
             then py_or (py_or artist_name (dict_get kv ''episode_show_name'')) (JStr ''Unknown Artist'')
             else artist_name)
      in \<lparr>artist = artist_name', track = track_name', timestamp = d,
          ms_played = dict_get kv ''ms_played'', uri = dict_get kv ''spotify_track_uri''\<rparr>)"

text \<open>
  One round of the loop over the entries (lines 42 to 68). An exception carries what had
  been printed when it was raised. Reading the unbound \<^verbatim>\<open>dt\<close> at line 53 raises
  \<^verbatim>\<open>UnboundLocalError\<close>.
\<close>

definition process_entry :: "lib \<Rightarrow> json \<Rightarrow> ingest_state \<Rightarrow> error \<times> diagnostic list + ingest_state" where
  "process_entry L entry st =
     (case has_ts entry of
        Inl e \<Rightarrow> Inl (e, stdout st)
      | Inr False \<Rightarrow> Inr st
      | Inr True \<Rightarrow>
          (case entry_ts entry of
             Inl e \<Rightarrow> Inl (e, stdout st)
           | Inr v \<Rightarrow>
               (case parse_ts L v st of
                  Inl e \<Rightarrow> Inl (e, stdout st)
                | Inr st' \<Rightarrow>
                    (case dt_var st' of
                       None \<Rightarrow> Inl (UnboundLocalError, stdout st')
                     | Some d \<Rightarrow>
                         (case entry of
                            JObj kv \<Rightarrow>
                              Inr (st'\<lparr>tracks_by_week :=
                                setdefault_append (get_year_week d) (make_event kv d)
                                  (tracks_by_week st')\<rparr>)
                          | _ \<Rightarrow> Inl (TypeError, stdout st'))))))"

fun process_entries :: "lib \<Rightarrow> json list \<Rightarrow> ingest_state \<Rightarrow> error \<times> diagnostic list + ingest_state" where
  "process_entries L [] st = Inr st"
| "process_entries L (entry # entries) st =
     (case process_entry L entry st of
        Inl e \<Rightarrow> Inl e
      | Inr st' \<Rightarrow> process_entries L entries st')"

text \<open>One round of the loop over the files (lines 23 to 68).\<close>

definition process_file :: "lib \<Rightarrow> history_file \<Rightarrow> ingest_state \<Rightarrow> error \<times> diagnostic list + ingest_state" where
  "process_file L file st =
     (case snd file of
        JSONDecodeError \<Rightarrow> Inr (st\<lparr>stdout := stdout st @ [SkippingInvalidJSON (fst file)]\<rparr>)
      | LoadRaises e \<Rightarrow> Inl (e, stdout st)
      | Loaded data \<Rightarrow>
          (case unwrap_data data of
             JArr entries \<Rightarrow> process_entries L entries st
           | _ \<Rightarrow> Inr (st\<lparr>stdout := stdout st @ [SkippingUnexpectedFormat (fst file)]\<rparr>)))"

fun process_files :: "lib \<Rightarrow> history_file list \<Rightarrow> ingest_state \<Rightarrow> error \<times> diagnostic list + ingest_state" where
  "process_files L [] st = Inr st"
| "process_files L (file # files) st =
     (case process_file L file st of
        Inl e \<Rightarrow> Inl e
      | Inr st' \<Rightarrow> process_files L files st')"

text \<open>
  \<^verbatim>\<open>load_spotify_history(folder)\<close>, on the files the glob yields and the output printed
  before the call. It returns the dict and the output, or the exception and the output.
\<close>

definition load_spotify_history ::
  "lib \<Rightarrow> history_file list \<Rightarrow> diagnostic list
     \<Rightarrow> error \<times> diagnostic list + (week \<times> event list) list \<times> diagnostic list" where
  "load_spotify_history L folder out0 =
     (case process_files L folder \<lparr>tracks_by_week = [], dt_var = None, stdout = out0\<rparr> of
        Inl e \<Rightarrow> Inl e
      | Inr st \<Rightarrow> Inr (tracks_by_week st, stdout st))"

text \<open>
  A file is malformed when \<^verbatim>\<open>json.load\<close> raises \<^verbatim>\<open>JSONDecodeError\<close> on it or when
  what it holds is neither a list nor an object with a list under one of the known fields.
\<close>

definition malformed :: "history_file \<Rightarrow> bool" where
  "malformed file =
     (case snd file of
        JSONDecodeError \<Rightarrow> True
      | LoadRaises e \<Rightarrow> False
      | Loaded data \<Rightarrow> (case unwrap_data data of JArr entries \<Rightarrow> False | _ \<Rightarrow> True))"

definition skip_diagnostic :: "history_file \<Rightarrow> diagnostic" where
  "skip_diagnostic file =
     (case snd file of
        JSONDecodeError \<Rightarrow> SkippingInvalidJSON (fst file)
      | _ \<Rightarrow> SkippingUnexpectedFormat (fst file))"

text \<open>
  A record is resolvable when it is an object whose \<^verbatim>\<open>ts\<close>, if it has one, is a string that
  the strict or the lenient parse accepts; a file is clean when it loads, holds a list
  and all its records are resolvable.
\<close>

definition resolvable :: "lib \<Rightarrow> json \<Rightarrow> bool" where
  "resolvable L entry =
     (case entry of
        JObj kv \<Rightarrow>
          (case map_of kv ''ts'' of
             None \<Rightarrow> True
           | Some (JStr s) \<Rightarrow>
               strptime_history L s \<noteq> None \<or> fromisoformat L (replace_Z s) \<noteq> None
           | Some _ \<Rightarrow> False)
      | _ \<Rightarrow> False)"

definition clean_file :: "lib \<Rightarrow> history_file \<Rightarrow> bool" where
  "clean_file L file =
     (case snd file of
        JSONDecodeError \<Rightarrow> False
      | LoadRaises e \<Rightarrow> False
      | Loaded data \<Rightarrow>
          (case unwrap_data data of JArr entries \<Rightarrow> list_all (resolvable L) entries | _ \<Rightarrow> False))"

text \<open>What a run leaves of its result when the printed output is set aside.\<close>

definition buckets_of :: "error \<times> diagnostic list + 'b \<times> diagnostic list \<Rightarrow> error + 'b" where
  "buckets_of r = (case r of Inl (e, out) \<Rightarrow> Inl e | Inr (b, out) \<Rightarrow> Inr b)"

text \<open>What a step of the ingestion yields apart from the printed output.\<close>

definition ingest_core ::
  "error \<times> diagnostic list + ingest_state \<Rightarrow> error + (week \<times> event list) list \<times> datetime option" where
  "ingest_core r = (case r of Inl (e, out) \<Rightarrow> Inl e | Inr st \<Rightarrow> Inr (tracks_by_week st, dt_var st))"

section \<open>Photos\<close>

text \<open>
  One path yielded by \<^verbatim>\<open>Path(folder).glob('*.*')\<close>, with what the calls on it give:
  \<open>exif\<close> is the outcome of opening the file and of \<^verbatim>\<open>exifread.process_file\<close>
  (an exception, or the tags, of which only the printable \<^verbatim>\<open>EXIF DateTimeOriginal\<close>
  matters), \<open>mtime\<close> is \<^verbatim>\<open>os.path.getmtime(path)\<close>, \<open>None\<close> when it raises
  \<^verbatim>\<open>OSError\<close>, as it does on a link whose target is gone.
\<close>

datatype exif_read = ExifRaises | ExifTags "string option"

record photo_file =
  path :: string
  exif :: exif_read
  mtime :: "rat option"

text \<open>\<^verbatim>\<open>imgfile.suffix.lower()\<close>, as \<^verbatim>\<open>pathlib\<close> computes the suffix of the last component.\<close>

definition path_name :: "string \<Rightarrow> string" where
  "path_name p = rev (takeWhile (\<lambda>c. c \<noteq> CHR ''/'') (rev p))"

definition path_suffix :: "string \<Rightarrow> string" where
  "path_suffix p =
     (let name = path_name p;
          after = length (takeWhile (\<lambda>c. c \<noteq> CHR ''.'') (rev name));
          i = length name - 1 - after
      in if CHR ''.'' \<in> set name \<and> 0 < i \<and> i < length name - 1 then drop i name else [])"

definition lower_char :: "char \<Rightarrow> char" where
  "lower_char c =
     (let n = (of_char c :: nat) in if 65 \<le> n \<and> n \<le> 90 then char_of (n + 32) else c)"

definition lower :: "string \<Rightarrow> string" where
  "lower s = map lower_char s"

definition is_jpeg :: "photo_file \<Rightarrow> bool" where
  "is_jpeg f = (lower (path_suffix (path f)) \<in> set [''.jpg'', ''.jpeg''])"

text \<open>
  \<^verbatim>\<open>get_photo_date\<close>. The body of the \<^verbatim>\<open>try\<close> (lines 74 to 79) either returns the
  parsed tag, falls through (no tag) or raises; \<^verbatim>\<open>except Exception: pass\<close> turns the
  last case into the second. Lines 83 and 84 then read and convert the modification
  time; they stand outside the \<^verbatim>\<open>try\<close>, and what they raise leaves the function.
\<close>

definition try_exif_date :: "lib \<Rightarrow> photo_file \<Rightarrow> error + datetime option" where
  "try_exif_date L f =
     (case exif f of
        ExifRaises \<Rightarrow> Inl OtherException
      | ExifTags None \<Rightarrow> Inr None
      | ExifTags (Some datestr) \<Rightarrow>
          (case strptime_exif L datestr of None \<Rightarrow> Inl ValueError | Some d \<Rightarrow> Inr (Some d)))"

definition file_date :: "lib \<Rightarrow> photo_file \<Rightarrow> error + datetime" where
  "file_date L f = (case mtime f of None \<Rightarrow> Inl OSError | Some ts \<Rightarrow> fromtimestamp L ts)"

definition get_photo_date :: "lib \<Rightarrow> photo_file \<Rightarrow> error + datetime" where
  "get_photo_date L f =
     (case try_exif_date L f of
        Inr (Some d) \<Rightarrow> Inr d
      | Inr None \<Rightarrow> file_date L f
      | Inl e \<Rightarrow> file_date L f)"

text \<open>\<^verbatim>\<open>load_photos\<close>: the loop over the glob's paths, and the function.\<close>

fun load_photos_loop ::
  "lib \<Rightarrow> photo_file list \<Rightarrow> (week \<times> string list) list \<Rightarrow> error + (week \<times> string list) list" where
  "load_photos_loop L [] photos_by_week = Inr photos_by_week"
| "load_photos_loop L (imgfile # rest) photos_by_week =
     (if \<not> is_jpeg imgfile then load_photos_loop L rest photos_by_week
      else (case get_photo_date L imgfile of
              Inl e \<Rightarrow> Inl e
            | Inr d \<Rightarrow>
                load_photos_loop L rest
                  (setdefault_append (get_year_week d) (path imgfile) photos_by_week)))"

definition load_photos :: "lib \<Rightarrow> photo_file list \<Rightarrow> error + (week \<times> string list) list" where
  "load_photos L folder = load_photos_loop L folder []"

text \<open>
  The timestamp the fallback chain is to give a photo: the tag if it is there and parses,
  else the file's modification time. A photo is datable when the chain gives one.
\<close>

definition resolved_date :: "lib \<Rightarrow> photo_file \<Rightarrow> error + datetime" where
  "resolved_date L f =
     (case exif f of
        ExifTags (Some datestr) \<Rightarrow>
          (case strptime_exif L datestr of
             Some d \<Rightarrow> Inr d
           | None \<Rightarrow> (case mtime f of None \<Rightarrow> Inl OSError | Some ts \<Rightarrow> fromtimestamp L ts))
      | _ \<Rightarrow> (case mtime f of None \<Rightarrow> Inl OSError | Some ts \<Rightarrow> fromtimestamp L ts))"

definition datable :: "lib \<Rightarrow> photo_file \<Rightarrow> bool" where
  "datable L f = (case resolved_date L f of Inl e \<Rightarrow> False | Inr d \<Rightarrow> True)"

text \<open>Lines 91 and 92: the week a photo is filed under.\<close>

definition photo_week :: "lib \<Rightarrow> photo_file \<Rightarrow> error + week" where
  "photo_week L f = (case get_photo_date L f of Inl e \<Rightarrow> Inl e | Inr d \<Rightarrow> Inr (get_year_week d))"

section \<open>Sampling\<close>

text \<open>
  The random generator is the stream of numbers it will produce; \<^verbatim>\<open>random.choice(seq)\<close>
  raises \<^verbatim>\<open>IndexError\<close> on an empty sequence and otherwise returns
  \<^verbatim>\<open>seq[randbelow(len(seq))]\<close>. \<^verbatim>\<open>randbelow(n)\<close> is the library's way from the
  generator's output to a number below \<open>n\<close>; here it is the next number modulo \<open>n\<close>.
\<close>

type_synonym rng = "nat stream"

definition randbelow :: "nat \<Rightarrow> rng \<Rightarrow> nat \<times> rng" where
  "randbelow n g = (shd g mod n, stl g)"

definition choice :: "'a list \<Rightarrow> rng \<Rightarrow> error + 'a \<times> rng" where
  "choice seq g =
     (if seq = [] then Inl IndexError
      else (case randbelow (length seq) g of (i, g') \<Rightarrow> Inr (seq ! i, g')))"

text \<open>
  \<^verbatim>\<open>list(set(tracks.keys()) & set(photos.keys()))\<close>: the keys of both, each once. The order
  in which Python lists a set is not specified; the model lists the keys in the order of
  \<open>tracks\<close>, and nothing proved below depends on it.
\<close>

definition common_weeks :: "(week \<times> 'a list) list \<Rightarrow> (week \<times> 'b list) list \<Rightarrow> week list" where
  "common_weeks tr ph = remdups (filter (\<lambda>k. k \<in> set (map fst ph)) (map fst tr))"

definition get_random_photo_and_song ::
  "(week \<times> 'a list) list \<Rightarrow> (week \<times> 'b list) list \<Rightarrow> rng \<Rightarrow> error + ('a \<times> 'b \<times> week) \<times> rng" where
  "get_random_photo_and_song tr ph g =
     (case choice (common_weeks tr ph) g of
        Inl e \<Rightarrow> Inl e
      | Inr (wk, g1) \<Rightarrow>
          (case subscript tr wk of
             Inl e \<Rightarrow> Inl e
           | Inr tracks_of_week \<Rightarrow>
               (case choice tracks_of_week g1 of
                  Inl e \<Rightarrow> Inl e
                | Inr (tk, g2) \<Rightarrow>
                    (case subscript ph wk of
                       Inl e \<Rightarrow> Inl e
                     | Inr photos_of_week \<Rightarrow>
                         (case choice photos_of_week g2 of
                            Inl e \<Rightarrow> Inl e
                          | Inr (pt, g3) \<Rightarrow> Inr ((tk, pt, wk), g3))))))"

text \<open>
  The module's globals \<^verbatim>\<open>tracks\<close> and \<^verbatim>\<open>photos\<close> with the generator, and the first line
  of \<^verbatim>\<open>next_item\<close>, which samples from them.
\<close>

record ('a, 'b) globals =
  tracks :: "(week \<times> 'a list) list"
  photos :: "(week \<times> 'b list) list"
  generator :: rng

definition pick_next :: "('a, 'b) globals \<Rightarrow> (error + 'a \<times> 'b \<times> week) \<times> ('a, 'b) globals" where
  "pick_next s =
     (case get_random_photo_and_song (tracks s) (photos s) (generator s) of
        Inl e \<Rightarrow> (Inl e, s)
      | Inr (r, g') \<Rightarrow> (Inr r, s\<lparr>generator := g'\<rparr>))"

text \<open>
  \<^verbatim>\<open>get_random_photo_and_song\<close> asks the generator for three numbers. A generator is
  uniform when these are independent and each equally likely to be any number below
  \<open>M\<close>, for an \<open>M\<close> that the lengths asked for divide, so that \<open>randbelow n\<close> is equally
  likely to be any number below \<open>n\<close>. \<open>outcomes M g f\<close> lists what \<open>f\<close> returns on each of
  the \<open>M ^ 3\<close> equally likely beginnings of such a generator, continued by \<open>g\<close>;
  \<open>frequency\<close> is the share of the outcomes in an event, its probability; \<open>drew ev\<close> is the
  event that a triple was returned and satisfies \<open>ev\<close>.
\<close>

definition outcomes :: "nat \<Rightarrow> rng \<Rightarrow> (rng \<Rightarrow> 'r) \<Rightarrow> 'r list" where
  "outcomes M g f =
     concat (map (\<lambda>r1. concat (map (\<lambda>r2. map (\<lambda>r3. f (r1 ## r2 ## r3 ## g)) [0..<M]) [0..<M]))
       [0..<M])"

definition frequency :: "'r list \<Rightarrow> ('r \<Rightarrow> bool) \<Rightarrow> rat" where
  "frequency rs ev = of_nat (length (filter ev rs)) / of_nat (length rs)"

definition drew :: "('a \<times> 'b \<times> week \<Rightarrow> bool) \<Rightarrow> error + ('a \<times> 'b \<times> week) \<times> rng \<Rightarrow> bool" where
  "drew ev r = (case r of Inl e \<Rightarrow> False | Inr (x, g') \<Rightarrow> ev x)"

section \<open>A library instance for running the model\<close>

text \<open>
  The theorems hold for every library. To run the model on examples, this stand-in knows
  only the strings and times below, on which it answers as CPython does; the examples
  use these and strings that CPython rejects as well, such as \<^verbatim>\<open>'not a timestamp'\<close>.
\<close>

definition example_lib :: lib where
  "example_lib =
     \<lparr>strptime_history = (\<lambda>s.
          if s = ''2020-12-28T10:00:00Z'' then Some (datetime 2020 12 28 10 0 0)
          else if s = ''2021-01-04T09:30:00Z'' then Some (datetime 2021 1 4 9 30 0)
          else None),
      fromisoformat = (\<lambda>s.
          if s = ''2021-01-01T08:00:00+01:00''
          then Some ((datetime 2021 1 1 8 0 0)\<lparr>utcoffset := Some 3600\<rparr>)
          else None),
      strptime_exif = (\<lambda>s.
          if s = ''2020:12:28 10:00:00'' then Some (datetime 2020 12 28 10 0 0) else None),
      fromtimestamp = (\<lambda>t.
          if t = 1609488000 then Inr (datetime 2021 1 1 8 0 0)
          else if t = 1609754400 then Inr (datetime 2021 1 4 10 0 0)
          else Inr (datetime 1970 1 1 0 0 0))\<rparr>"

definition example_photos :: "photo_file list" where
  "example_photos =
     [\<lparr>path = ''/photos/IMG_1.JPG'', exif = ExifTags (Some ''2020:12:28 10:00:00''), mtime = Some 1609754400\<rparr>,
      \<lparr>path = ''/photos/IMG_2.jpeg'', exif = ExifRaises, mtime = Some 1609754400\<rparr>,
      \<lparr>path = ''/photos/IMG_3.jpg'', exif = ExifTags (Some ''garbled''), mtime = Some 1609488000\<rparr>,
      \<lparr>path = ''/photos/notes.txt'', exif = ExifTags None, mtime = Some 0\<rparr>]"

definition example_event :: "datetime \<Rightarrow> event" where
  "example_event d =
     \<lparr>artist = JStr ''Unknown Artist'', track = JStr ''Unknown Track'', timestamp = d,
      ms_played = JNull, uri = JNull\<rparr>"

definition example_history :: "history_file list" where
  "example_history =
     [(''Streams_2020.json'', Loaded (JArr [JObj [(''ts'', JStr ''2020-12-28T10:00:00Z'')]])),
      (''Streams_broken.json'', JSONDecodeError),
      (''Streams_2021.json'',
         Loaded (JObj [(''plays'', JArr [JObj [(''ts'', JStr ''2021-01-01T08:00:00+01:00'')],
                                          JObj [(''episode_name'', JStr ''no ts'')]])])),
      (''Streams_text.json'', Loaded (JStr ''plays''))]"

section \<open>Calendar arithmetic\<close>

lemma div_step:
  fixes y n :: int
  assumes n: "0 < n"
  shows "y div n = (y - 1) div n + (if y mod n = 0 then 1 else 0)"
proof (cases "y mod n = 0")
  case True
  have eq: "y - 1 = n * (y div n - 1) + (n - 1)"
    using True div_mult_mod_eq[of y n] by (simp add: algebra_simps)
  have "(y - 1) div n = y div n - 1"
    by (rule int_div_pos_eq[of _ n _ "n - 1"]) (use n eq in simp_all)
  then show ?thesis using True by simp
next
  case False
  have r: "0 \<le> y mod n" "y mod n < n" using n by simp_all
  have eq: "y - 1 = n * (y div n) + (y mod n - 1)"
    using div_mult_mod_eq[of y n] by (simp add: algebra_simps)
  have "(y - 1) div n = y div n"
    by (rule int_div_pos_eq[of _ n _ "y mod n - 1"]) (use r False eq in simp_all)
  then show ?thesis using False by simp
qed

lemma mod_400_100: "(y::int) mod 400 = 0 \<Longrightarrow> y mod 100 = 0"
  using mod_mod_cancel[of 100 400 y] by simp

lemma mod_100_4: "(y::int) mod 100 = 0 \<Longrightarrow> y mod 4 = 0"
  using mod_mod_cancel[of 4 100 y] by simp

lemma leap_delta_bool:
  "(c \<longrightarrow> b) \<Longrightarrow> (b \<longrightarrow> a) \<Longrightarrow>
   365 + (if a then 1 else 0) - (if b then 1 else 0) + (if c then 1 else 0)
     = (if a \<and> (\<not> b \<or> c) then 366 else (365::int))"
  by (cases a; cases b; cases c) simp_all

lemma leap_delta:
  fixes y :: int
  shows "365 + (if y mod 4 = 0 then 1 else 0) - (if y mod 100 = 0 then 1 else 0)
           + (if y mod 400 = 0 then 1 else 0) = (if is_leap y then 366 else (365::int))"
  unfolding is_leap_def
  by (rule leap_delta_bool) (rule impI, erule mod_400_100, rule impI, erule mod_100_4)

lemma year_step_lin:
  fixes y a b c a' b' c' da db dc :: int
  assumes "a = a' + da" "b = b' + db" "c = c' + dc"
  shows "y * 365 + a - b + c = (y - 1) * 365 + a' - b' + c' + (365 + da - db + dc)"
  unfolding assms by (simp add: algebra_simps)

lemma days_before_year_Suc:
  "days_before_year (y + 1) = days_before_year y + (if is_leap y then 366 else 365)"
proof -
  define da db dc :: int where "da = (if y mod 4 = 0 then 1 else 0)"
    and "db = (if y mod 100 = 0 then 1 else 0)" and "dc = (if y mod 400 = 0 then 1 else 0)"
  have d4: "y div 4 = (y - 1) div 4 + da"
    unfolding da_def by (rule div_step) simp
  have d100: "y div 100 = (y - 1) div 100 + db"
    unfolding db_def by (rule div_step) simp
  have d400: "y div 400 = (y - 1) div 400 + dc"
    unfolding dc_def by (rule div_step) simp
  have l: "days_before_year (y + 1) = y * 365 + y div 4 - y div 100 + y div 400"
    unfolding days_before_year_def Let_def by (simp only: add_diff_cancel_right')
  have r: "days_before_year y = (y - 1) * 365 + (y - 1) div 4 - (y - 1) div 100 + (y - 1) div 400"
    unfolding days_before_year_def Let_def by (rule refl)
  have e: "365 + da - db + dc = (if is_leap y then 366 else 365)"
    unfolding da_def db_def dc_def by (rule leap_delta)
  show ?thesis
    unfolding l r e[symmetric] by (rule year_step_lin[OF d4 d100 d400])
qed


lemma jan1_eq: "ymd2ord y 1 1 = days_before_year y + 1"
  by (simp add: ymd2ord_def days_before_month_def DAYS_BEFORE_MONTH_def)

lemma jan1_step:
  "ymd2ord (y + 1) 1 1 = ymd2ord y 1 1 + 365 \<or> ymd2ord (y + 1) 1 1 = ymd2ord y 1 1 + 366"
  unfolding jan1_eq days_before_year_Suc by (cases "is_leap y") simp_all

lemma week1_arith:
  fixes j w :: int
  assumes "w = j + (3 - (j + 6) mod 7) mod 7 - 3"
  shows "(w + 6) mod 7 = 0 \<and> j - 3 \<le> w \<and> w \<le> j + 3"
  using assms by presburger

lemma week1monday_arith:
  fixes j :: int
  shows "(if (j + 6) mod 7 > 3 then j - (j + 6) mod 7 + 7 else j - (j + 6) mod 7)
           = j + (3 - (j + 6) mod 7) mod 7 - 3"
  by presburger

lemma thursday_arith:
  fixes j :: int
  shows "(j + (3 - (j + 6) mod 7) mod 7 + 6) mod 7 = 3 \<and> j \<le> j + (3 - (j + 6) mod 7) mod 7
     \<and> (\<forall>n. j \<le> n \<and> n < j + (3 - (j + 6) mod 7) mod 7 \<longrightarrow> (n + 6) mod 7 \<noteq> 3)"
  by presburger

lemma week_step_arith:
  fixes j j' w w' :: int
  assumes m: "(w + 6) mod 7 = 0" "(w' + 6) mod 7 = 0" and b: "j - 3 \<le> w" "w \<le> j + 3"
    "j' - 3 \<le> w'" "w' \<le> j' + 3" and s: "j' = j + 365 \<or> j' = j + 366"
  shows "w' = w + 364 \<or> w' = w + 371"
proof -
  have "(w' + 6) mod 7 = (w + 6) mod 7" using m by simp
  then have "7 dvd (w' + 6) - (w + 6)" by (simp only: mod_eq_dvd_iff)
  then obtain k where k: "w' - w = 7 * k" by (auto simp: dvd_def)
  have "359 \<le> 7 * k" "7 * k \<le> 372" using b s k by linarith+
  then have "k = 52 \<or> k = 53" by presburger
  then show ?thesis using k by auto
qed

lemma isoweek1monday_eq: "isoweek1monday y = week1_start y"
  unfolding isoweek1monday_def week1_start_def first_thursday_def weekday_of_def Let_def
  by (rule week1monday_arith)

lemma first_thursday_least:
  "weekday_of (first_thursday y) = 3 \<and> ymd2ord y 1 1 \<le> first_thursday y \<and>
   (\<forall>n. ymd2ord y 1 1 \<le> n \<and> n < first_thursday y \<longrightarrow> weekday_of n \<noteq> 3)"
  unfolding first_thursday_def weekday_of_def Let_def by (rule thursday_arith)

lemma week1_start_facts:
  "(week1_start y + 6) mod 7 = 0 \<and> ymd2ord y 1 1 - 3 \<le> week1_start y
     \<and> week1_start y \<le> ymd2ord y 1 1 + 3"
  by (rule week1_arith) (simp add: week1_start_def first_thursday_def weekday_of_def Let_def)

lemma week1_start_step:
  "week1_start (y + 1) = week1_start y + 364 \<or> week1_start (y + 1) = week1_start y + 371"
  using week1_start_facts[of y] week1_start_facts[of "y + 1"] jan1_step[of y]
  by (intro week_step_arith[of "week1_start y" "week1_start (y + 1)" "ymd2ord y 1 1" "ymd2ord (y + 1) 1 1"]) blast+


lemma toordinal_in_year:
  assumes v: "valid_date dt"
  shows "ymd2ord (year dt) 1 1 \<le> toordinal dt \<and> toordinal dt < ymd2ord (year dt + 1) 1 1"
proof -
  have m: "month dt = 1 \<or> month dt = 2 \<or> month dt = 3 \<or> month dt = 4 \<or> month dt = 5
      \<or> month dt = 6 \<or> month dt = 7 \<or> month dt = 8 \<or> month dt = 9 \<or> month dt = 10
      \<or> month dt = 11 \<or> month dt = 12"
    using v unfolding valid_date_def by arith
  have d: "1 \<le> day dt" "day dt \<le> days_in_month (year dt) (month dt)"
    using v unfolding valid_date_def by simp_all
  show ?thesis
    using m d unfolding toordinal_def jan1_eq days_before_year_Suc
    by (elim disjE; cases "is_leap (year dt)")
       (simp_all add: ymd2ord_def days_before_month_def days_in_month_def
          DAYS_BEFORE_MONTH_def DAYS_IN_MONTH_def)
qed

lemma div7_bounds:
  fixes d :: int
  shows "7 * (d div 7) \<le> d \<and> d < 7 * (d div 7) + 7"
  by presburger


lemma isocalendar_in_iso_week:
  assumes v: "valid_date dt"
  shows "in_iso_week (toordinal dt) (get_year_week dt)"
proof -
  define y where "y = year dt"
  define t where "t = toordinal dt"
  define W0 where "W0 = week1_start (y - 1)"
  define W1 where "W1 = week1_start y"
  define W2 where "W2 = week1_start (y + 1)"
  define W3 where "W3 = week1_start (y + 1 + 1)"
  define q0 where "q0 = (t - W0) div 7"
  define q1 where "q1 = (t - W1) div 7"
  have s0: "W0 + 364 \<le> W1"
    using week1_start_step[of "y - 1"] by (auto simp: W0_def W1_def)
  have s1: "W1 + 364 \<le> W2"
    using week1_start_step[of y] by (auto simp: W1_def W2_def)
  have s2: "W2 + 364 \<le> W3"
    using week1_start_step[of "y + 1"] unfolding W2_def W3_def by auto
  have lo: "W1 - 3 \<le> t"
    using toordinal_in_year[OF v] week1_start_facts[of y] by (simp add: t_def W1_def y_def)
  have hi: "t < W2 + 3"
    using toordinal_in_year[OF v] week1_start_facts[of "y + 1"] by (simp add: t_def W2_def y_def)
  have b0: "7 * q0 \<le> t - W0" "t - W0 < 7 * q0 + 7"
    using div7_bounds[of "t - W0"] by (simp_all only: q0_def)
  have b1: "7 * q1 \<le> t - W1" "t - W1 < 7 * q1 + 7"
    using div7_bounds[of "t - W1"] by (simp_all only: q1_def)
  have iso: "get_year_week dt =
      (if q1 < 0 then (y - 1, q0 + 1)
       else if q1 \<ge> 52 \<and> t \<ge> W2 then (y + 1, 1) else (y, q1 + 1))"
    unfolding get_year_week_def isocalendar_def Let_def isoweek1monday_eq
      q0_def q1_def t_def W0_def W1_def W2_def y_def toordinal_def
    by (simp only: split: if_split) auto
  show ?thesis
  proof (cases "q1 < 0")
    case True
    then have g: "get_year_week dt = (y - 1, q0 + 1)" using iso by simp
    have "1 \<le> q0 + 1 \<and> W0 + 7 * (q0 + 1 - 1) \<le> t \<and> t < W0 + 7 * (q0 + 1) \<and> t < W1"
      using True s0 lo b0 b1 by simp
    then show ?thesis
      unfolding g in_iso_week_def t_def[symmetric] by (simp add: W0_def W1_def)
  next
    case nneg: False
    show ?thesis
    proof (cases "q1 \<ge> 52 \<and> t \<ge> W2")
      case True
      then have g: "get_year_week dt = (y + 1, 1)" using iso nneg by simp
      have "W2 + 7 * (1 - 1) \<le> t \<and> t < W2 + 7 * 1 \<and> t < W3"
        using True s2 hi by simp
      then show ?thesis
        unfolding g in_iso_week_def t_def[symmetric] by (simp add: W2_def W3_def)
    next
      case False
      then have g: "get_year_week dt = (y, q1 + 1)" using iso nneg by simp
      have "1 \<le> q1 + 1 \<and> W1 + 7 * (q1 + 1 - 1) \<le> t \<and> t < W1 + 7 * (q1 + 1) \<and> t < W2"
        using False nneg s1 b1 by (cases "52 \<le> q1") simp_all
      then show ?thesis
        unfolding g in_iso_week_def t_def[symmetric] by (simp add: W1_def W2_def)
    qed
  qed
qed

lemma week1_start_mono_nat: "week1_start y \<le> week1_start (y + int n)"
proof (induction n)
  case 0
  show ?case by simp
next
  case (Suc n)
  have "week1_start (y + int n) \<le> week1_start (y + int n + 1)"
    using week1_start_step[of "y + int n"] by auto
  moreover have "y + int (Suc n) = y + int n + 1" by simp
  ultimately show ?case using Suc by (simp only: order_trans[OF Suc])
qed

lemma week1_start_mono: "y \<le> y' \<Longrightarrow> week1_start y \<le> week1_start y'"
  using week1_start_mono_nat[of y "nat (y' - y)"] by simp

lemma in_iso_week_year_le:
  assumes a: "in_iso_week n (Y, W)" and b: "in_iso_week n (Y', W')"
  shows "Y' \<le> Y"
proof (rule ccontr)
  assume "\<not> Y' \<le> Y"
  then have "Y + 1 \<le> Y'" by simp
  then have "week1_start (Y + 1) \<le> week1_start Y'" by (rule week1_start_mono)
  moreover have "n < week1_start (Y + 1)" using a by (simp add: in_iso_week_def)
  moreover have "week1_start Y' \<le> n" using b by (simp add: in_iso_week_def)
  ultimately show False by simp
qed

lemma in_iso_week_unique:
  assumes a: "in_iso_week n (Y, W)" and b: "in_iso_week n (Y', W')"
  shows "(Y', W') = (Y, W)"
proof -
  have Y: "Y' = Y"
    using in_iso_week_year_le[OF a b] in_iso_week_year_le[OF b a] by simp
  have "7 * (W - 1) \<le> n - week1_start Y" "n - week1_start Y < 7 * W"
    "7 * (W' - 1) \<le> n - week1_start Y" "n - week1_start Y < 7 * W'"
    using a b unfolding Y in_iso_week_def by simp_all
  then have "W' = W" by simp
  with Y show ?thesis by simp
qed

text \<open>
  C5. For every valid date the key computed by \<open>get_year_week\<close> is the ISO-8601 week of
  the date: the date lies in week \<open>W\<close> of ISO year \<open>Y\<close>, weeks running from Monday and
  week 1 being the one that holds the year's first Thursday, and no other pair has this
  property. 2020-12-28 and 2021-01-01 both fall in week 53 of 2020.
\<close>

theorem get_year_week_iso8601:
  assumes "valid_date d"
  shows "in_iso_week (toordinal d) (get_year_week d)
     \<and> (\<forall>k. in_iso_week (toordinal d) k \<longrightarrow> k = get_year_week d)
     \<and> get_year_week (datetime 2020 12 28 0 0 0) = (2020, 53)
     \<and> get_year_week (datetime 2021 1 1 0 0 0) = (2020, 53)"
proof (intro conjI allI impI)
  show g: "in_iso_week (toordinal d) (get_year_week d)"
    using assms by (rule isocalendar_in_iso_week)
  show "k = get_year_week d" if "in_iso_week (toordinal d) k" for k
  proof -
    obtain Y W where yw: "get_year_week d = (Y, W)" by (cases "get_year_week d")
    obtain Y' W' where k: "k = (Y', W')" by (cases k)
    show ?thesis
      using in_iso_week_unique[of "toordinal d" Y W Y' W'] g that unfolding yw k by simp
  qed
  show "get_year_week (datetime 2020 12 28 0 0 0) = (2020, 53)"
    by code_simp
  show "get_year_week (datetime 2021 1 1 0 0 0) = (2020, 53)"
    by code_simp
qed

theorem get_year_week_iso8601_witness:
  "valid_date (datetime 2021 1 3 23 59 59)
     \<and> get_year_week (datetime 2021 1 3 23 59 59) = (2020, 53)
     \<and> in_iso_week (toordinal (datetime 2021 1 3 23 59 59)) (2020, 53)"
proof -
  have v: "valid_date (datetime 2021 1 3 23 59 59)" by code_simp
  have e: "get_year_week (datetime 2021 1 3 23 59 59) = (2020, 53)" by code_simp
  show ?thesis using get_year_week_iso8601[OF v] v e by simp
qed

section \<open>Ingestion and sampling\<close>


lemma setdefault_append_no_empty:
  "no_empty_bucket d \<Longrightarrow> no_empty_bucket (setdefault_append k v d)"
  by (induction d) (auto simp: no_empty_bucket_def)

lemma parse_ts_tracks:
  "parse_ts L v st = Inr st' \<Longrightarrow> tracks_by_week st' = tracks_by_week st"
  by (auto simp: parse_ts_def split: json.splits option.splits)

lemma process_entry_no_empty:
  assumes "process_entry L entry st = Inr st'" "no_empty_bucket (tracks_by_week st)"
  shows "no_empty_bucket (tracks_by_week st')"
  using assms
  by (auto simp: process_entry_def setdefault_append_no_empty dest!: parse_ts_tracks
      split: sum.splits bool.splits option.splits json.splits)

lemma process_entries_no_empty:
  "process_entries L entries st = Inr st' \<Longrightarrow> no_empty_bucket (tracks_by_week st)
     \<Longrightarrow> no_empty_bucket (tracks_by_week st')"
proof (induction entries arbitrary: st)
  case Nil
  then show ?case by simp
next
  case (Cons entry entries)
  then show ?case
    by (auto split: sum.splits dest: process_entry_no_empty)
qed

lemma process_file_no_empty:
  "process_file L file st = Inr st' \<Longrightarrow> no_empty_bucket (tracks_by_week st)
     \<Longrightarrow> no_empty_bucket (tracks_by_week st')"
  by (auto simp: process_file_def split: json_load.splits json.splits
      dest: process_entries_no_empty)

lemma process_files_no_empty:
  "process_files L files st = Inr st' \<Longrightarrow> no_empty_bucket (tracks_by_week st)
     \<Longrightarrow> no_empty_bucket (tracks_by_week st')"
proof (induction files arbitrary: st)
  case Nil
  then show ?case by simp
next
  case (Cons f files)
  then show ?case
    by (auto split: sum.splits dest: process_file_no_empty)
qed

lemma load_photos_loop_no_empty:
  "load_photos_loop L folder acc = Inr b \<Longrightarrow> no_empty_bucket acc \<Longrightarrow> no_empty_bucket b"
proof (induction folder arbitrary: acc)
  case Nil
  then show ?case by simp
next
  case (Cons f folder)
  then show ?case
    by (auto split: if_splits sum.splits intro: setdefault_append_no_empty)
qed

text \<open>
  C9. In the dict returned by \<open>load_spotify_history\<close> and in the one returned by
  \<open>load_photos\<close> every key maps to a list that is not empty.
\<close>

theorem buckets_never_empty:
  "(load_spotify_history L folder out0 = Inr (b, out) \<longrightarrow> no_empty_bucket b)
     \<and> (load_photos L photo_folder = Inr pb \<longrightarrow> no_empty_bucket pb)"
proof (intro conjI impI)
  assume "load_spotify_history L folder out0 = Inr (b, out)"
  then obtain st where "process_files L folder \<lparr>tracks_by_week = [], dt_var = None, stdout = out0\<rparr> = Inr st"
    and "b = tracks_by_week st"
    by (auto simp: load_spotify_history_def split: sum.splits)
  then show "no_empty_bucket b"
    using process_files_no_empty[of L folder _ st] by (simp add: no_empty_bucket_def)
next
  assume "load_photos L photo_folder = Inr pb"
  then show "no_empty_bucket pb"
    using load_photos_loop_no_empty[of L photo_folder "[]" pb]
    by (simp add: load_photos_def no_empty_bucket_def)
qed


lemma choice_in_set: "choice seq g = Inr (x, g') \<Longrightarrow> x \<in> set seq"
  by (auto simp: choice_def randbelow_def split: if_splits)

lemma choice_empty: "choice [] g = Inl IndexError"
  by (simp add: choice_def)

lemma choice_nonempty: "seq \<noteq> [] \<Longrightarrow> \<exists>x g'. choice seq g = Inr (x, g')"
  by (simp add: choice_def randbelow_def)

lemma choice_error: "choice seq g = Inl e \<Longrightarrow> e = IndexError \<and> seq = []"
  by (auto simp: choice_def randbelow_def split: if_splits prod.splits)

lemma set_common_weeks: "set (common_weeks tr ph) = set (map fst tr) \<inter> set (map fst ph)"
  by (auto simp: common_weeks_def)

lemma distinct_common_weeks: "distinct (common_weeks tr ph)"
  by (simp add: common_weeks_def)

lemma subscript_Inr: "subscript d k = Inr v \<longleftrightarrow> map_of d k = Some v"
  by (simp add: subscript_def split: option.splits)

lemma subscript_key: "k \<in> set (map fst d) \<Longrightarrow> \<exists>v. subscript d k = Inr v"
  by (cases "map_of d k") (auto simp: subscript_def map_of_eq_None_iff)

lemma no_empty_bucket_map_of:
  "no_empty_bucket d \<Longrightarrow> map_of d k = Some vs \<Longrightarrow> vs \<noteq> []"
  by (auto simp: no_empty_bucket_def list_all_iff dest!: map_of_SomeD)

lemma sample_sound_aux:
  assumes a: "get_random_photo_and_song tr ph g = Inr ((tk, pt, wk), g')"
  shows "wk \<in> set (map fst tr) \<and> wk \<in> set (map fst ph)
      \<and> (\<exists>ts. map_of tr wk = Some ts \<and> tk \<in> set ts)
      \<and> (\<exists>ps. map_of ph wk = Some ps \<and> pt \<in> set ps)"
proof -
  from a obtain g1 ts g2 ps where
    w: "choice (common_weeks tr ph) g = Inr (wk, g1)" and
    ts: "subscript tr wk = Inr ts" and t: "choice ts g1 = Inr (tk, g2)" and
    ps: "subscript ph wk = Inr ps" and p: "choice ps g2 = Inr (pt, g')"
    by (auto simp: get_random_photo_and_song_def split: sum.splits prod.splits)
  have "wk \<in> set (map fst tr) \<inter> set (map fst ph)"
    using choice_in_set[OF w] by (simp only: set_common_weeks)
  moreover have "map_of tr wk = Some ts" "map_of ph wk = Some ps"
    using ts ps by (simp_all add: subscript_Inr)
  moreover have "tk \<in> set ts" "pt \<in> set ps"
    using choice_in_set[OF t] choice_in_set[OF p] by simp_all
  ultimately show ?thesis by simp
qed

lemma sample_succeeds_aux:
  assumes b: "set (map fst tr) \<inter> set (map fst ph) \<noteq> {}" "no_empty_bucket tr" "no_empty_bucket ph"
  shows "\<exists>r g''. get_random_photo_and_song tr ph g = Inr (r, g'')"
proof -
  have "common_weeks tr ph \<noteq> []"
    using b(1) set_common_weeks[of tr ph] by auto
  then obtain wk g1 where w: "choice (common_weeks tr ph) g = Inr (wk, g1)"
    using choice_nonempty by blast
  have k: "wk \<in> set (map fst tr)" "wk \<in> set (map fst ph)"
    using choice_in_set[OF w] by (simp_all add: set_common_weeks)
  obtain ts where ts: "subscript tr wk = Inr ts" using subscript_key[OF k(1)] by blast
  obtain ps where ps: "subscript ph wk = Inr ps" using subscript_key[OF k(2)] by blast
  have ne: "ts \<noteq> []" "ps \<noteq> []"
    using no_empty_bucket_map_of[OF b(2), of wk ts] no_empty_bucket_map_of[OF b(3), of wk ps] ts ps
    by (simp_all add: subscript_Inr)
  from ne(1) obtain tk g2 where t: "choice ts g1 = Inr (tk, g2)"
    using choice_nonempty by blast
  from ne(2) obtain pt g3 where p: "choice ps g2 = Inr (pt, g3)"
    using choice_nonempty by blast
  show ?thesis
    using w ts t ps p by (simp add: get_random_photo_and_song_def)
qed

text \<open>
  C10. A triple \<open>(track, photo, week)\<close> returned by \<open>get_random_photo_and_song\<close> is sound:
  the week is a key of both dicts, the track is in the list stored for that week in the
  first and the photo in the list stored for it in the second. When the dicts share a
  key and hold no empty list, the call does return a triple.
\<close>

theorem sample_sound:
  "(get_random_photo_and_song tr ph g = Inr ((tk, pt, wk), g') \<longrightarrow>
      wk \<in> set (map fst tr) \<and> wk \<in> set (map fst ph)
      \<and> (\<exists>ts. map_of tr wk = Some ts \<and> tk \<in> set ts)
      \<and> (\<exists>ps. map_of ph wk = Some ps \<and> pt \<in> set ps))
   \<and> (set (map fst tr) \<inter> set (map fst ph) \<noteq> {} \<and> no_empty_bucket tr \<and> no_empty_bucket ph \<longrightarrow>
      (\<exists>r g''. get_random_photo_and_song tr ph g = Inr (r, g'')))"
  using sample_sound_aux[of tr ph g tk pt wk g'] sample_succeeds_aux[of tr ph g] by blast

text \<open>
  C2. When the two dicts share no key, the sample fails: \<^verbatim>\<open>random.choice\<close> raises
  \<^verbatim>\<open>IndexError\<close> on the empty list of common weeks, no triple is returned, and the
  globals are what they were, both dicts included.
\<close>

theorem no_overlap_fails:
  assumes "set (map fst (tracks s)) \<inter> set (map fst (photos s)) = {}"
  shows "get_random_photo_and_song (tracks s) (photos s) (generator s) = Inl IndexError
     \<and> pick_next s = (Inl IndexError, s)
     \<and> tracks (snd (pick_next s)) = tracks s \<and> photos (snd (pick_next s)) = photos s"
proof -
  have "common_weeks (tracks s) (photos s) = []"
    using assms set_common_weeks[of "tracks s" "photos s"] by simp
  then have "get_random_photo_and_song (tracks s) (photos s) (generator s) = Inl IndexError"
    by (simp add: get_random_photo_and_song_def choice_empty)
  then show ?thesis by (simp add: pick_next_def)
qed


theorem buckets_never_empty_witness:
  "load_spotify_history example_lib
      [(''Streams_2020.json'', Loaded (JArr [JObj [(''ts'', JStr ''2020-12-28T10:00:00Z'')]]))] []
     = Inr ([((2020, 53), [\<lparr>artist = JStr ''Unknown Artist'', track = JStr ''Unknown Track'',
          timestamp = datetime 2020 12 28 10 0 0, ms_played = JNull, uri = JNull\<rparr>])], [])
   \<and> no_empty_bucket [((2020 :: int, 53 :: int), [\<lparr>artist = JStr ''Unknown Artist'',
          track = JStr ''Unknown Track'', timestamp = datetime 2020 12 28 10 0 0,
          ms_played = JNull, uri = JNull\<rparr>])]
   \<and> load_photos example_lib [\<lparr>path = ''/photos/IMG_1.JPG'', exif = ExifTags None, mtime = Some 1609754400\<rparr>]
     = Inr [((2021, 1), [''/photos/IMG_1.JPG''])]
   \<and> no_empty_bucket [((2021 :: int, 1 :: int), [''/photos/IMG_1.JPG''])]"
proof -
  have h: "load_spotify_history example_lib
      [(''Streams_2020.json'', Loaded (JArr [JObj [(''ts'', JStr ''2020-12-28T10:00:00Z'')]]))] []
     = Inr ([((2020, 53), [\<lparr>artist = JStr ''Unknown Artist'', track = JStr ''Unknown Track'',
          timestamp = datetime 2020 12 28 10 0 0, ms_played = JNull, uri = JNull\<rparr>])], [])"
    by code_simp
  have p: "load_photos example_lib [\<lparr>path = ''/photos/IMG_1.JPG'', exif = ExifTags None, mtime = Some 1609754400\<rparr>]
     = Inr [((2021, 1), [''/photos/IMG_1.JPG''])]"
    by code_simp
  show ?thesis
    using buckets_never_empty[of example_lib _ "[]" _ "[]" _ _] h p by blast
qed

theorem sample_sound_witness:
  "get_random_photo_and_song [((2024, 10), [''eventA''])]
      [((2024, 10), [''photoX'']), ((2024, 11), [''photoY''])] (sconst 0)
     = Inr ((''eventA'', ''photoX'', (2024, 10)), sconst 0)
   \<and> (2024, 10) \<in> set (map fst [((2024 :: int, 10 :: int), [''eventA''])])
   \<and> (2024, 10) \<in> set (map fst [((2024 :: int, 10 :: int), [''photoX'']), ((2024, 11), [''photoY''])])
   \<and> (\<exists>ts. map_of [((2024 :: int, 10 :: int), [''eventA''])] (2024, 10) = Some ts \<and> ''eventA'' \<in> set ts)
   \<and> (\<exists>ps. map_of [((2024 :: int, 10 :: int), [''photoX'']), ((2024, 11), [''photoY''])] (2024, 10) = Some ps
         \<and> ''photoX'' \<in> set ps)"
proof -
  have e: "get_random_photo_and_song [((2024, 10), [''eventA''])]
      [((2024, 10), [''photoX'']), ((2024, 11), [''photoY''])] (sconst 0)
     = Inr ((''eventA'', ''photoX'', (2024, 10)), sconst 0)"
    by (simp add: get_random_photo_and_song_def choice_def randbelow_def common_weeks_def
        subscript_def)
  show ?thesis
    using sample_sound[of "[((2024, 10), [''eventA''])]"
        "[((2024, 10), [''photoX'']), ((2024, 11), [''photoY''])]" "sconst 0"
        "''eventA''" "''photoX''" "(2024, 10)" "sconst 0"] e
    by blast
qed

theorem no_overlap_fails_witness:
  "set (map fst (tracks \<lparr>tracks = [((2024, 10), [''eventA''])], photos = [((2024, 11), [''photoY''])],
        generator = sconst 0\<rparr>))
     \<inter> set (map fst (photos \<lparr>tracks = [((2024, 10), [''eventA''])],
        photos = [((2024, 11), [''photoY''])], generator = sconst 0\<rparr>)) = {}
   \<and> pick_next \<lparr>tracks = [((2024, 10), [''eventA''])], photos = [((2024, 11), [''photoY''])],
        generator = sconst 0\<rparr>
     = (Inl IndexError, \<lparr>tracks = [((2024, 10), [''eventA''])], photos = [((2024, 11), [''photoY''])],
        generator = sconst 0\<rparr>)"
proof -
  have d: "set (map fst (tracks \<lparr>tracks = [((2024 :: int, 10 :: int), [''eventA''])],
        photos = [((2024 :: int, 11 :: int), [''photoY''])], generator = sconst 0\<rparr>))
     \<inter> set (map fst (photos \<lparr>tracks = [((2024, 10), [''eventA''])],
        photos = [((2024, 11), [''photoY''])], generator = sconst 0\<rparr>)) = {}"
    by simp
  show ?thesis
    using no_overlap_fails[OF d] d by simp
qed


lemma get_photo_date_resolved: "get_photo_date L f = resolved_date L f"
  by (auto simp: get_photo_date_def try_exif_date_def resolved_date_def file_date_def
      split: exif_read.splits option.splits)

lemma photo_week_Inr:
  "photo_week L f = Inr k \<longleftrightarrow> (\<exists>d. get_photo_date L f = Inr d \<and> get_year_week d = k)"
  by (auto simp: photo_week_def split: sum.splits)

lemma datable_iff: "datable L f \<longleftrightarrow> (\<exists>d. get_photo_date L f = Inr d)"
  by (auto simp: datable_def get_photo_date_resolved split: sum.splits)

lemma load_photos_loop_step:
  "load_photos_loop L (f # folder) acc =
     (if \<not> is_jpeg f then load_photos_loop L folder acc
      else (case photo_week L f of
              Inl e \<Rightarrow> Inl e
            | Inr k \<Rightarrow> load_photos_loop L folder (setdefault_append k (path f) acc)))"
  by (simp add: photo_week_def split: sum.splits)

lemma load_photos_loop_total:
  "\<forall>f \<in> set folder. is_jpeg f \<longrightarrow> datable L f \<Longrightarrow> \<exists>b. load_photos_loop L folder acc = Inr b"
proof (induction folder arbitrary: acc)
  case Nil
  show ?case by simp
next
  case (Cons f folder)
  show ?case
  proof (cases "is_jpeg f")
    case False
    then show ?thesis using Cons by simp
  next
    case True
    then obtain d where "get_photo_date L f = Inr d"
      using Cons.prems by (auto simp: datable_iff)
    then show ?thesis using Cons True by simp
  qed
qed


lemma mset_setdefault_append:
  "mset (concat (map snd (setdefault_append k v d))) = add_mset v (mset (concat (map snd d)))"
  by (induction d) auto

lemma keys_setdefault_append:
  "fst ` set (setdefault_append k v d) = insert k (fst ` set d)"
  by (induction d) force+

lemma distinct_setdefault_append:
  "distinct (map fst d) \<Longrightarrow> distinct (map fst (setdefault_append k v d))"
proof (induction d)
  case Nil
  show ?case by simp
next
  case (Cons kv d)
  obtain k' vs where kv: "kv = (k', vs)" by (cases kv)
  show ?case
  proof (cases "k' = k")
    case True
    then show ?thesis using Cons.prems unfolding kv by simp
  next
    case False
    then show ?thesis
      using Cons unfolding kv by (simp add: keys_setdefault_append)
  qed
qed

lemma bucket_setdefault_append:
  "bucket (setdefault_append k v d) k' = (if k' = k then bucket d k @ [v] else bucket d k')"
  by (induction d) (auto simp: bucket_def)

lemma load_photos_loop_mset:
  "load_photos_loop L folder acc = Inr b \<Longrightarrow>
     mset (concat (map snd b)) = mset (concat (map snd acc)) + mset (map path (filter is_jpeg folder))"
proof (induction folder arbitrary: acc)
  case Nil
  then show ?case by simp
next
  case (Cons f folder)
  then show ?case
    by (auto simp: mset_setdefault_append split: if_splits sum.splits)
qed

lemma load_photos_loop_distinct:
  "load_photos_loop L folder acc = Inr b \<Longrightarrow> distinct (map fst acc) \<Longrightarrow> distinct (map fst b)"
proof (induction folder arbitrary: acc)
  case Nil
  then show ?case by simp
next
  case (Cons f folder)
  then show ?case
    by (auto simp: distinct_setdefault_append split: if_splits sum.splits)
qed

lemma load_photos_loop_bucket_mset:
  "load_photos_loop L folder acc = Inr b \<Longrightarrow>
     mset (bucket b k) = mset (bucket acc k)
       + mset (map path (filter (\<lambda>f. is_jpeg f \<and> photo_week L f = Inr k) folder))"
proof (induction folder arbitrary: acc)
  case Nil
  then show ?case by simp
next
  case (Cons f folder)
  show ?case
  proof (cases "is_jpeg f")
    case False
    then show ?thesis using Cons by simp
  next
    case True
    then obtain k' where k': "photo_week L f = Inr k'"
      and l: "load_photos_loop L folder (setdefault_append k' (path f) acc) = Inr b"
      using Cons.prems unfolding load_photos_loop_step by (auto split: sum.splits)
    show ?thesis
      using Cons.IH[OF l] True k' by (auto simp: bucket_setdefault_append)
  qed
qed


lemma load_photos_loop_member:
  assumes "load_photos_loop L folder [] = Inr b" "f \<in> set folder" "is_jpeg f"
    "photo_week L f = Inr k"
  shows "path f \<in> set (bucket b k)"
proof -
  have "path f \<in> set (map path (filter (\<lambda>f. is_jpeg f \<and> photo_week L f = Inr k) folder))"
    using assms(2-4) by auto
  then have "path f \<in># mset (bucket b k)"
    unfolding load_photos_loop_bucket_mset[OF assms(1)] by simp
  then show ?thesis by simp
qed

lemma load_photos_loop_origin:
  assumes "load_photos_loop L folder [] = Inr b" "p \<in> set (bucket b k)"
  shows "\<exists>f \<in> set folder. is_jpeg f \<and> p = path f \<and> photo_week L f = Inr k"
proof -
  have "p \<in># mset (bucket b k)" using assms(2) by simp
  then have "p \<in> set (map path (filter (\<lambda>f. is_jpeg f \<and> photo_week L f = Inr k) folder))"
    unfolding load_photos_loop_bucket_mset[OF assms(1)] by (simp add: bucket_def)
  then show ?thesis by auto
qed

lemma bucket_of_entry: "distinct (map fst d) \<Longrightarrow> (k, vs) \<in> set d \<Longrightarrow> bucket d k = vs"
  by (simp add: bucket_def)

text \<open>
  C6, as amended. Let every path the glob yields whose suffix is \<^verbatim>\<open>.jpg\<close> or \<^verbatim>\<open>.jpeg\<close>, in
  any letter case, be datable: its capture-time tag parses, or its modification time can
  be read and converted. Then \<open>load_photos\<close> returns, and every such path is stored once:
  the stored paths are, with multiplicity, the paths of these files, each week is one key,
  and a photo lies under the week of its resolved date, which is the capture-time tag
  when the tag is present and parses and the file's modification time otherwise.
\<close>

theorem every_photo_bucketed_once:
  assumes "\<forall>f \<in> set folder. is_jpeg f \<longrightarrow> datable L f"
  shows "\<exists>b. load_photos L folder = Inr b
     \<and> mset (concat (map snd b)) = mset (map path (filter is_jpeg folder))
     \<and> distinct (map fst b)
     \<and> (\<forall>f \<in> set folder. is_jpeg f \<longrightarrow>
           (\<exists>d. resolved_date L f = Inr d \<and> get_photo_date L f = Inr d
              \<and> path f \<in> set (bucket b (get_year_week d))))"
proof -
  obtain b where b: "load_photos_loop L folder [] = Inr b"
    using load_photos_loop_total[OF assms] by blast
  have "mset (concat (map snd b)) = mset (map path (filter is_jpeg folder))"
    using load_photos_loop_mset[OF b] by simp
  moreover have "distinct (map fst b)"
    using load_photos_loop_distinct[OF b] by simp
  moreover have "\<exists>d. resolved_date L f = Inr d \<and> get_photo_date L f = Inr d
              \<and> path f \<in> set (bucket b (get_year_week d))"
    if f: "f \<in> set folder" "is_jpeg f" for f
  proof -
    obtain d where d: "get_photo_date L f = Inr d"
      using assms f by (auto simp: datable_iff)
    then have "photo_week L f = Inr (get_year_week d)" by (simp add: photo_week_def)
    from load_photos_loop_member[OF b f this] d show ?thesis
      by (auto simp: get_photo_date_resolved)
  qed
  ultimately show ?thesis
    using b by (auto simp: load_photos_def)
qed

text \<open>
  C7, as amended. An entry of a photo bucket is the path of a discovered photo whose
  resolved date falls in the bucket's week; it is a string, and the date itself is not
  stored with it.
\<close>

theorem photo_entries_are_paths:
  assumes "load_photos L folder = Inr b" "(k, ps) \<in> set b" "p \<in> set ps"
  shows "\<exists>f \<in> set folder. is_jpeg f \<and> p = path f
     \<and> (\<exists>d. resolved_date L f = Inr d \<and> get_photo_date L f = Inr d \<and> get_year_week d = k)"
proof -
  have b: "load_photos_loop L folder [] = Inr b"
    using assms(1) by (simp add: load_photos_def)
  have "bucket b k = ps"
    using load_photos_loop_distinct[OF b] assms(2) by (simp add: bucket_of_entry)
  then have "p \<in> set (bucket b k)" using assms(3) by simp
  from load_photos_loop_origin[OF b this] show ?thesis
    by (auto simp: photo_week_Inr get_photo_date_resolved)
qed

lemma load_example_photos:
  "load_photos example_lib example_photos
     = Inr [((2020, 53), [''/photos/IMG_1.JPG'', ''/photos/IMG_3.jpg'']),
            ((2021, 1), [''/photos/IMG_2.jpeg''])]"
  by code_simp

theorem every_photo_bucketed_once_witness:
  "list_all (\<lambda>f. is_jpeg f \<longrightarrow> datable example_lib f) example_photos
   \<and> load_photos example_lib example_photos
     = Inr [((2020, 53), [''/photos/IMG_1.JPG'', ''/photos/IMG_3.jpg'']),
            ((2021, 1), [''/photos/IMG_2.jpeg''])]
   \<and> is_jpeg (example_photos ! 2)
   \<and> get_photo_date example_lib (example_photos ! 2) = Inr (datetime 2021 1 1 8 0 0)
   \<and> path (example_photos ! 2)
        \<in> set (bucket [((2020 :: int, 53 :: int), [''/photos/IMG_1.JPG'', ''/photos/IMG_3.jpg'']),
                       ((2021, 1), [''/photos/IMG_2.jpeg''])] (2020, 53))"
proof -
  have a: "list_all (\<lambda>f. is_jpeg f \<longrightarrow> datable example_lib f) example_photos" by code_simp
  then have h: "\<forall>f \<in> set example_photos. is_jpeg f \<longrightarrow> datable example_lib f"
    by (simp add: list_all_iff)
  have m: "example_photos ! 2 \<in> set example_photos" by (simp add: example_photos_def)
  have j: "is_jpeg (example_photos ! 2)" by code_simp
  have r: "get_photo_date example_lib (example_photos ! 2) = Inr (datetime 2021 1 1 8 0 0)"
    by code_simp
  have w: "get_year_week (datetime 2021 1 1 8 0 0) = (2020, 53)" by code_simp
  show ?thesis
    using every_photo_bucketed_once[OF h] load_example_photos a m j r w
    by auto
qed

text \<open>
  Without that condition \<open>load_photos\<close> can raise: \<^verbatim>\<open>os.path.getmtime\<close> fails on a
  \<^verbatim>\<open>.jpg\<close> link whose target is gone, outside the \<^verbatim>\<open>try\<close>, and the photos listed before
  it are lost with the run.
\<close>

theorem dangling_photo_raises:
  "is_jpeg \<lparr>path = ''/photos/gone.jpg'', exif = ExifRaises, mtime = None\<rparr>
   \<and> load_photos example_lib [\<lparr>path = ''/photos/gone.jpg'', exif = ExifRaises, mtime = None\<rparr>]
     = Inl OSError
   \<and> load_photos example_lib
        (example_photos @ [\<lparr>path = ''/photos/gone.jpg'', exif = ExifRaises, mtime = None\<rparr>])
     = Inl OSError"
  by code_simp

theorem photo_entries_are_paths_witness:
  "load_photos example_lib example_photos
     = Inr [((2020, 53), [''/photos/IMG_1.JPG'', ''/photos/IMG_3.jpg'']),
            ((2021, 1), [''/photos/IMG_2.jpeg''])]
   \<and> (\<exists>f \<in> set example_photos. is_jpeg f \<and> ''/photos/IMG_2.jpeg'' = path f
         \<and> (\<exists>d. get_photo_date example_lib f = Inr d \<and> get_year_week d = (2021, 1)))"
proof -
  have "\<exists>f \<in> set example_photos. is_jpeg f \<and> ''/photos/IMG_2.jpeg'' = path f
     \<and> (\<exists>d. resolved_date example_lib f = Inr d \<and> get_photo_date example_lib f = Inr d
           \<and> get_year_week d = (2021, 1))"
    by (rule photo_entries_are_paths[OF load_example_photos, of _ "[''/photos/IMG_2.jpeg'']"])
       simp_all
  then show ?thesis using load_example_photos by blast
qed

theorem photo_entry_has_no_timestamp:
  "load_photos example_lib
      [\<lparr>path = ''/photos/IMG_1.JPG'', exif = ExifTags (Some ''2020:12:28 10:00:00''),
        mtime = Some 1609488000\<rparr>]
     = Inr [((2020, 53), [''/photos/IMG_1.JPG''])]
   \<and> load_photos example_lib
      [\<lparr>path = ''/photos/IMG_1.JPG'', exif = ExifTags None, mtime = Some 1609488000\<rparr>]
     = Inr [((2020, 53), [''/photos/IMG_1.JPG''])]
   \<and> get_photo_date example_lib
      \<lparr>path = ''/photos/IMG_1.JPG'', exif = ExifTags (Some ''2020:12:28 10:00:00''),
        mtime = Some 1609488000\<rparr>
     = Inr (datetime 2020 12 28 10 0 0)
   \<and> get_photo_date example_lib
      \<lparr>path = ''/photos/IMG_1.JPG'', exif = ExifTags None, mtime = Some 1609488000\<rparr>
     = Inr (datetime 2021 1 1 8 0 0)
   \<and> datetime 2020 12 28 10 0 0 \<noteq> datetime 2021 1 1 8 0 0"
  by code_simp

lemma ingest_core_eqD:
  assumes "ingest_core r = ingest_core r'"
  shows "(\<exists>e out out'. r = Inl (e, out) \<and> r' = Inl (e, out'))
     \<or> (\<exists>st st'. r = Inr st \<and> r' = Inr st' \<and> tracks_by_week st = tracks_by_week st'
            \<and> dt_var st = dt_var st')"
  using assms by (cases r; cases r') (auto simp: ingest_core_def)

lemma parse_ts_core:
  assumes "tracks_by_week st = tracks_by_week st'" "dt_var st = dt_var st'"
  shows "ingest_core (case parse_ts L v st of Inl e \<Rightarrow> Inl (e, out) | Inr s \<Rightarrow> Inr s)
       = ingest_core (case parse_ts L v st' of Inl e \<Rightarrow> Inl (e, out') | Inr s \<Rightarrow> Inr s)"
  using assms by (auto simp: parse_ts_def ingest_core_def split: json.splits option.splits)

lemma process_entry_core:
  assumes "tracks_by_week st = tracks_by_week st'" "dt_var st = dt_var st'"
  shows "ingest_core (process_entry L entry st) = ingest_core (process_entry L entry st')"
proof (cases "has_ts entry")
  case (Inl e)
  then show ?thesis by (simp add: process_entry_def ingest_core_def)
next
  case (Inr present)
  show ?thesis
  proof (cases present)
    case False
    then show ?thesis using Inr assms by (simp add: process_entry_def ingest_core_def)
  next
    case True
    show ?thesis
    proof (cases "entry_ts entry")
      case (Inl e)
      then show ?thesis using Inr True by (simp add: process_entry_def ingest_core_def)
    next
      case v: (Inr v)
      from parse_ts_core[OF assms, where L = L and v = v and out = "stdout st" and out' = "stdout st'"]
      consider (raise) e where "parse_ts L v st = Inl e" "parse_ts L v st' = Inl e"
        | (ok) s s' where "parse_ts L v st = Inr s" "parse_ts L v st' = Inr s'"
            "tracks_by_week s = tracks_by_week s'" "dt_var s = dt_var s'"
        by (cases "parse_ts L v st"; cases "parse_ts L v st'") (auto simp: ingest_core_def)
      then show ?thesis
      proof cases
        case raise
        then show ?thesis using Inr True v by (simp add: process_entry_def ingest_core_def)
      next
        case ok
        then show ?thesis using Inr True v
          by (simp add: process_entry_def ingest_core_def split: option.splits json.splits)
      qed
    qed
  qed
qed

lemma process_entries_core:
  "tracks_by_week st = tracks_by_week st' \<Longrightarrow> dt_var st = dt_var st' \<Longrightarrow>
     ingest_core (process_entries L entries st) = ingest_core (process_entries L entries st')"
proof (induction entries arbitrary: st st')
  case Nil
  then show ?case by (simp add: ingest_core_def)
next
  case (Cons entry entries)
  from ingest_core_eqD[OF process_entry_core[OF Cons.prems, of L entry]]
  show ?case
  proof (elim disjE exE conjE)
    fix e out out'
    assume "process_entry L entry st = Inl (e, out)" "process_entry L entry st' = Inl (e, out')"
    then show ?thesis by (simp add: ingest_core_def)
  next
    fix s s'
    assume "process_entry L entry st = Inr s" "process_entry L entry st' = Inr s'"
      "tracks_by_week s = tracks_by_week s'" "dt_var s = dt_var s'"
    then show ?thesis using Cons.IH[of s s'] by simp
  qed
qed

lemma process_file_core:
  assumes "tracks_by_week st = tracks_by_week st'" "dt_var st = dt_var st'"
  shows "ingest_core (process_file L f st) = ingest_core (process_file L f st')"
  using assms process_entries_core[OF assms, of L]
  by (auto simp: process_file_def ingest_core_def split: json_load.splits json.splits)

lemma process_files_core:
  "tracks_by_week st = tracks_by_week st' \<Longrightarrow> dt_var st = dt_var st' \<Longrightarrow>
     ingest_core (process_files L files st) = ingest_core (process_files L files st')"
proof (induction files arbitrary: st st')
  case Nil
  then show ?case by (simp add: ingest_core_def)
next
  case (Cons f files)
  from ingest_core_eqD[OF process_file_core[OF Cons.prems, of L f]]
  show ?case
  proof (elim disjE exE conjE)
    fix e out out'
    assume "process_file L f st = Inl (e, out)" "process_file L f st' = Inl (e, out')"
    then show ?thesis by (simp add: ingest_core_def)
  next
    fix s s'
    assume "process_file L f st = Inr s" "process_file L f st' = Inr s'"
      "tracks_by_week s = tracks_by_week s'" "dt_var s = dt_var s'"
    then show ?thesis using Cons.IH[of s s'] by simp
  qed
qed

lemma buckets_of_load:
  "buckets_of (load_spotify_history L folder out0)
     = map_sum id fst (ingest_core (process_files L folder
          \<lparr>tracks_by_week = [], dt_var = None, stdout = out0\<rparr>))"
  by (auto simp: load_spotify_history_def buckets_of_def ingest_core_def split: sum.splits)

lemma load_spotify_history_output_free:
  "buckets_of (load_spotify_history L folder out0) = buckets_of (load_spotify_history L folder out1)"
  unfolding buckets_of_load
  by (rule arg_cong[where f = "map_sum id fst"], rule process_files_core) simp_all

lemma malformed_skipped:
  "malformed f \<Longrightarrow> process_file L f st = Inr (st\<lparr>stdout := stdout st @ [skip_diagnostic f]\<rparr>)"
  by (auto simp: malformed_def process_file_def skip_diagnostic_def
      split: json_load.splits json.splits)

lemma process_files_filter_core:
  "tracks_by_week st = tracks_by_week st' \<Longrightarrow> dt_var st = dt_var st' \<Longrightarrow>
     ingest_core (process_files L files st)
       = ingest_core (process_files L (filter (\<lambda>f. \<not> malformed f) files) st')"
proof (induction files arbitrary: st st')
  case Nil
  then show ?case by (simp add: ingest_core_def)
next
  case (Cons f files)
  show ?case
  proof (cases "malformed f")
    case True
    then show ?thesis
      using Cons.IH[of "st\<lparr>stdout := stdout st @ [skip_diagnostic f]\<rparr>" st'] Cons.prems
      by (simp add: malformed_skipped)
  next
    case False
    from ingest_core_eqD[OF process_file_core[OF Cons.prems, of L f]]
    show ?thesis
    proof (elim disjE exE conjE)
      fix e out out'
      assume "process_file L f st = Inl (e, out)" "process_file L f st' = Inl (e, out')"
      then show ?thesis using False by (simp add: ingest_core_def)
    next
      fix s s'
      assume "process_file L f st = Inr s" "process_file L f st' = Inr s'"
        "tracks_by_week s = tracks_by_week s'" "dt_var s = dt_var s'"
      then show ?thesis using False Cons.IH[of s s'] by simp
    qed
  qed
qed

lemma parse_ts_stdout:
  "parse_ts L v st = Inr st' \<Longrightarrow> set (stdout st) \<subseteq> set (stdout st')"
  by (auto simp: parse_ts_def split: json.splits option.splits)

lemma process_entry_stdout:
  "process_entry L entry st = Inr st' \<Longrightarrow> set (stdout st) \<subseteq> set (stdout st')"
  by (auto simp: process_entry_def
      split: sum.splits bool.splits option.splits json.splits dest!: parse_ts_stdout)

lemma process_entries_stdout:
  "process_entries L entries st = Inr st' \<Longrightarrow> set (stdout st) \<subseteq> set (stdout st')"
proof (induction entries arbitrary: st)
  case Nil
  then show ?case by simp
next
  case (Cons entry entries)
  then show ?case
    by (auto split: sum.splits dest!: process_entry_stdout)
qed

lemma process_file_stdout:
  "process_file L f st = Inr st' \<Longrightarrow> set (stdout st) \<subseteq> set (stdout st')"
  by (auto simp: process_file_def split: json_load.splits json.splits
      dest!: process_entries_stdout)

lemma process_files_stdout:
  "process_files L files st = Inr st' \<Longrightarrow> set (stdout st) \<subseteq> set (stdout st')"
proof (induction files arbitrary: st)
  case Nil
  then show ?case by simp
next
  case (Cons f files)
  then show ?case
    by (auto split: sum.splits dest!: process_file_stdout)
qed

lemma process_files_skip_logged:
  "process_files L files st = Inr st' \<Longrightarrow> f \<in> set files \<Longrightarrow> malformed f \<Longrightarrow>
     skip_diagnostic f \<in> set (stdout st')"
proof (induction files arbitrary: st)
  case Nil
  then show ?case by simp
next
  case (Cons f' files)
  from Cons.prems(1) obtain s where s: "process_file L f' st = Inr s"
    and rest: "process_files L files s = Inr st'"
    by (auto split: sum.splits)
  show ?case
  proof (cases "f = f'")
    case True
    then have "skip_diagnostic f \<in> set (stdout s)"
      using s Cons.prems(3) by (auto simp: malformed_skipped)
    then show ?thesis using process_files_stdout[OF rest] by blast
  next
    case False
    then show ?thesis using Cons.IH[OF rest] Cons.prems by simp
  qed
qed

lemma resolvable_entry_ok:
  assumes "resolvable L entry"
  shows "\<exists>st'. process_entry L entry st = Inr st'"
proof -
  from assms obtain kv where kv: "entry = JObj kv"
    by (auto simp: resolvable_def split: json.splits)
  show ?thesis
  proof (cases "map_of kv ''ts''")
    case None
    then have "''ts'' \<notin> set (map fst kv)" by (simp add: map_of_eq_None_iff)
    then show ?thesis by (simp add: kv process_entry_def has_ts_def)
  next
    case (Some v)
    then have in_keys: "''ts'' \<in> set (map fst kv)"
      by (metis map_of_eq_None_iff option.distinct(1) set_map)
    from assms Some obtain s where v: "v = JStr s"
      and p: "strptime_history L s \<noteq> None \<or> fromisoformat L (replace_Z s) \<noteq> None"
      by (auto simp: resolvable_def kv split: json.splits)
    have "\<exists>d. parse_ts L v st = Inr (st\<lparr>dt_var := Some d\<rparr>)"
      using p by (cases "strptime_history L s"; cases "fromisoformat L (replace_Z s)")
        (auto simp: parse_ts_def v)
    then obtain d where "parse_ts L v st = Inr (st\<lparr>dt_var := Some d\<rparr>)" by blast
    then show ?thesis
      using in_keys Some by (simp add: kv process_entry_def has_ts_def entry_ts_def subscript_def)
  qed
qed

lemma resolvable_entries_ok:
  "list_all (resolvable L) entries \<Longrightarrow> \<exists>st'. process_entries L entries st = Inr st'"
proof (induction entries arbitrary: st)
  case Nil
  then show ?case by simp
next
  case (Cons entry entries)
  then obtain s where "process_entry L entry st = Inr s"
    using resolvable_entry_ok[of L entry st] by auto
  then show ?case using Cons by simp
qed

lemma clean_file_ok: "clean_file L f \<Longrightarrow> \<exists>st'. process_file L f st = Inr st'"
  by (auto simp: clean_file_def process_file_def resolvable_entries_ok
      split: json_load.splits json.splits)

lemma clean_files_ok:
  "\<forall>f \<in> set files. malformed f \<or> clean_file L f \<Longrightarrow> \<exists>st'. process_files L files st = Inr st'"
proof (induction files arbitrary: st)
  case Nil
  then show ?case by simp
next
  case (Cons f files)
  have "\<exists>s. process_file L f st = Inr s"
    using Cons.prems clean_file_ok[of L f st] malformed_skipped[of f L st] by auto
  then obtain s where "process_file L f st = Inr s" by blast
  then show ?case using Cons by simp
qed

text \<open>
  C4, as amended. Let every file of the directory be malformed (\<^verbatim>\<open>json.load\<close> raises
  \<^verbatim>\<open>JSONDecodeError\<close>, or the value has no recognised shape) or be read without an
  exception and hold only resolvable records. Then \<open>load_spotify_history\<close> returns, the
  dict it returns is the one it returns on the well-formed files alone, and the skip
  message of every malformed file has been printed.
\<close>

theorem malformed_files_skipped:
  assumes "\<forall>f \<in> set folder. \<not> malformed f \<longrightarrow> clean_file L f"
  shows "\<exists>b out. load_spotify_history L folder out0 = Inr (b, out)
     \<and> buckets_of (load_spotify_history L (filter (\<lambda>f. \<not> malformed f) folder) out0) = Inr b
     \<and> (\<forall>f \<in> set folder. malformed f \<longrightarrow> skip_diagnostic f \<in> set out)"
proof -
  let ?init = "\<lparr>tracks_by_week = [], dt_var = None, stdout = out0\<rparr>"
  from assms have "\<forall>f \<in> set folder. malformed f \<or> clean_file L f" by blast
  then obtain st where st: "process_files L folder ?init = Inr st"
    using clean_files_ok by blast
  have l: "load_spotify_history L folder out0 = Inr (tracks_by_week st, stdout st)"
    using st by (simp add: load_spotify_history_def)
  have "ingest_core (process_files L (filter (\<lambda>f. \<not> malformed f) folder) ?init)
      = Inr (tracks_by_week st, dt_var st)"
    using process_files_filter_core[of ?init ?init L folder] st by (simp add: ingest_core_def)
  then have "buckets_of (load_spotify_history L (filter (\<lambda>f. \<not> malformed f) folder) out0)
      = Inr (tracks_by_week st)"
    unfolding buckets_of_load by simp
  moreover have "\<forall>f \<in> set folder. malformed f \<longrightarrow> skip_diagnostic f \<in> set (stdout st)"
    using process_files_skip_logged[OF st] by blast
  ultimately show ?thesis using l by blast
qed


lemma load_example_history:
  "load_spotify_history example_lib example_history []
     = Inr ([((2020, 53), [example_event (datetime 2020 12 28 10 0 0),
                           example_event ((datetime 2021 1 1 8 0 0)\<lparr>utcoffset := Some 3600\<rparr>)])],
            [SkippingInvalidJSON ''Streams_broken.json'',
             SkippingUnexpectedFormat ''Streams_text.json''])"
  by code_simp

theorem malformed_files_skipped_witness:
  "list_all (\<lambda>f. malformed f \<or> clean_file example_lib f) example_history
   \<and> load_spotify_history example_lib example_history []
     = Inr ([((2020, 53), [example_event (datetime 2020 12 28 10 0 0),
                           example_event ((datetime 2021 1 1 8 0 0)\<lparr>utcoffset := Some 3600\<rparr>)])],
            [SkippingInvalidJSON ''Streams_broken.json'',
             SkippingUnexpectedFormat ''Streams_text.json''])
   \<and> buckets_of (load_spotify_history example_lib
         (filter (\<lambda>f. \<not> malformed f) example_history) [])
     = Inr [((2020, 53), [example_event (datetime 2020 12 28 10 0 0),
                          example_event ((datetime 2021 1 1 8 0 0)\<lparr>utcoffset := Some 3600\<rparr>)])]
   \<and> malformed (example_history ! 1)
   \<and> skip_diagnostic (example_history ! 1)
        \<in> set [SkippingInvalidJSON ''Streams_broken.json'',
                SkippingUnexpectedFormat ''Streams_text.json'']"
proof -
  have c: "list_all (\<lambda>f. malformed f \<or> clean_file example_lib f) example_history"
    by code_simp
  then have h: "\<forall>f \<in> set example_history. \<not> malformed f \<longrightarrow> clean_file example_lib f"
    by (auto simp: list_all_iff)
  have m: "malformed (example_history ! 1)" by code_simp
  have i: "example_history ! 1 \<in> set example_history" by (simp add: example_history_def)
  show ?thesis
    using malformed_files_skipped[OF h, of "[]"] load_example_history c m i by auto
qed

text \<open>
  Without these conditions the run can end early. A file that is not UTF-8 raises
  \<^verbatim>\<open>UnicodeDecodeError\<close>, which line 27 does not catch, and the events of the files read
  before it are lost; a file of recognised shape raises \<^verbatim>\<open>UnboundLocalError\<close> when its
  first timestamp does not parse, and \<^verbatim>\<open>TypeError\<close> when a record is a number.
\<close>

theorem wellformed_file_can_raise:
  "load_spotify_history example_lib
      [(''Streams_2020.json'', Loaded (JArr [JObj [(''ts'', JStr ''2020-12-28T10:00:00Z'')]])),
       (''Streams_2021.json'', LoadRaises UnicodeDecodeError)] []
     = Inl (UnicodeDecodeError, [])
   \<and> \<not> malformed (''Streams_2020.json'', Loaded (JArr [JObj [(''ts'', JStr ''not a timestamp'')]]))
   \<and> load_spotify_history example_lib
        [(''Streams_2020.json'', Loaded (JArr [JObj [(''ts'', JStr ''not a timestamp'')]]))] []
     = Inl (UnboundLocalError, [FailedToParseTimestamp ''not a timestamp''])
   \<and> \<not> malformed (''Streams_2020.json'', Loaded (JArr [JNum 1]))
   \<and> load_spotify_history example_lib [(''Streams_2020.json'', Loaded (JArr [JNum 1]))] []
     = Inl (TypeError, [])"
  by code_simp

lemma unparseable_ts_entry:
  assumes "strptime_history L s = None" "fromisoformat L (replace_Z s) = None"
    "map_of kv ''ts'' = Some (JStr s)"
  shows "process_entry L (JObj kv) st =
     (case dt_var st of
        None \<Rightarrow> Inl (UnboundLocalError, stdout st @ [FailedToParseTimestamp s])
      | Some d \<Rightarrow>
          Inr (st\<lparr>stdout := stdout st @ [FailedToParseTimestamp s],
                 tracks_by_week := setdefault_append (get_year_week d) (make_event kv d)
                   (tracks_by_week st)\<rparr>))"
proof -
  have "''ts'' \<in> set (map fst kv)"
    using assms(3) by (metis map_of_eq_None_iff option.distinct(1) set_map)
  then show ?thesis
    using assms
    by (simp add: process_entry_def has_ts_def entry_ts_def subscript_def parse_ts_def
        split: option.splits)
qed

text \<open>
  C1. A record whose \<^verbatim>\<open>ts\<close> fails both parses is not skipped. The message is printed,
  and then line 53 reads \<^verbatim>\<open>dt\<close>: as the first record with a \<^verbatim>\<open>ts\<close> it ends the run
  with \<^verbatim>\<open>UnboundLocalError\<close>; after a record that parsed it is stored under that
  record's week with that record's timestamp.
\<close>

theorem unparseable_ts_not_skipped:
  "load_spotify_history example_lib
      [(''Streams_2020.json'', Loaded (JArr [JObj [(''ts'', JStr ''not a timestamp'')]]))] []
     = Inl (UnboundLocalError, [FailedToParseTimestamp ''not a timestamp''])
   \<and> load_spotify_history example_lib
      [(''Streams_2020.json'', Loaded (JArr [JObj [(''ts'', JStr ''2020-12-28T10:00:00Z'')],
                                             JObj [(''ts'', JStr ''not a timestamp'')]]))] []
     = Inr ([((2020, 53), [example_event (datetime 2020 12 28 10 0 0),
                           example_event (datetime 2020 12 28 10 0 0)])],
            [FailedToParseTimestamp ''not a timestamp''])"
  by code_simp


subsection \<open>The order of the listing\<close>












lemma load_example_history_rev:
  "load_spotify_history example_lib (rev example_history) []
     = Inr ([((2020, 53), [example_event ((datetime 2021 1 1 8 0 0)\<lparr>utcoffset := Some 3600\<rparr>),
                           example_event (datetime 2020 12 28 10 0 0)])],
            [SkippingUnexpectedFormat ''Streams_text.json'',
             SkippingInvalidJSON ''Streams_broken.json''])"
  by code_simp




subsection \<open>The frequencies of a sample\<close>

lemma subscript_bucket: "k \<in> set (map fst d) \<Longrightarrow> subscript d k = Inr (bucket d k)"
  by (cases "map_of d k") (auto simp: subscript_def bucket_def map_of_eq_None_iff)

lemma get_random_photo_and_song_draws:
  assumes "common_weeks tr ph \<noteq> []"
  shows "get_random_photo_and_song tr ph (r1 ## r2 ## r3 ## g) =
     (let wk = common_weeks tr ph ! (r1 mod length (common_weeks tr ph));
          ts = bucket tr wk; ps = bucket ph wk
      in if ts = [] then Inl IndexError
         else if ps = [] then Inl IndexError
         else Inr ((ts ! (r2 mod length ts), ps ! (r3 mod length ps), wk), g))"
proof -
  let ?wk = "common_weeks tr ph ! (r1 mod length (common_weeks tr ph))"
  have "?wk \<in> set (common_weeks tr ph)" using assms by simp
  then have k: "?wk \<in> set (map fst tr)" "?wk \<in> set (map fst ph)"
    by (simp_all only: set_common_weeks Int_iff)
  show ?thesis
    using assms subscript_bucket[OF k(1)] subscript_bucket[OF k(2)]
    by (simp add: get_random_photo_and_song_def choice_def randbelow_def Let_def)
qed

lemma drew_draws:
  assumes "common_weeks tr ph \<noteq> []" "bucket tr w \<noteq> []" "bucket ph w \<noteq> []"
  shows "drew (\<lambda>(t, p, wk). wk = w \<and> pt t \<and> pp p)
       (get_random_photo_and_song tr ph (r1 ## r2 ## r3 ## g))
     = (common_weeks tr ph ! (r1 mod length (common_weeks tr ph)) = w
        \<and> pt (bucket tr w ! (r2 mod length (bucket tr w)))
        \<and> pp (bucket ph w ! (r3 mod length (bucket ph w))))"
  unfolding get_random_photo_and_song_draws[OF assms(1)] Let_def
  using assms(2,3) by (auto simp: drew_def)

lemma length_filter_concat:
  "length (filter P (concat xss)) = sum_list (map (\<lambda>xs. length (filter P xs)) xss)"
  by (induction xss) simp_all

lemma length_filter_map: "length (filter P (map f xs)) = length (filter (\<lambda>x. P (f x)) xs)"
  by (induction xs) simp_all

lemma length_filter_conj_const:
  "length (filter (\<lambda>x. c \<and> P x) xs) = (if c then length (filter P xs) else 0)"
  by simp

lemma sum_list_if_const:
  "sum_list (map (\<lambda>x. if P x then (c :: nat) else 0) xs) = length (filter P xs) * c"
  by (induction xs) simp_all

lemma length_filter_nth: "length (filter (\<lambda>i. P (xs ! i)) [0..<length xs]) = length (filter P xs)"
  using length_filter_map[of P "(!) xs" "[0..<length xs]"] by (simp add: map_nth)

lemma length_filter_mod:
  assumes "xs \<noteq> []"
  shows "length (filter (\<lambda>r. P (xs ! (r mod length xs))) [0..<length xs * q])
     = q * length (filter P xs)"
proof (induction q)
  case 0
  show ?case by simp
next
  case (Suc q)
  let ?n = "length xs"
  have e: "?n * Suc q = ?n * q + ?n" by simp
  have s: "[0..<?n * q + ?n] = [0..<?n * q] @ [?n * q..<?n * q + ?n]"
    by (rule upt_add_eq_append) simp
  have m: "[?n * q..<?n * q + ?n] = map (\<lambda>i. i + ?n * q) [0..<?n]"
    unfolding map_add_upt by (simp only: add.commute)
  have c: "length (filter (\<lambda>r. P (xs ! (r mod ?n))) (map (\<lambda>i. i + ?n * q) [0..<?n]))
      = length (filter (\<lambda>i. P (xs ! i)) [0..<?n])"
    unfolding length_filter_map by (rule arg_cong[where f = length], rule filter_cong) auto
  show ?case
    unfolding e s filter_append length_append Suc.IH m c length_filter_nth by simp
qed

lemma length_outcomes: "length (outcomes M g f) = M * M * M"
  by (simp add: outcomes_def length_concat comp_def sum_list_triv)

lemma sum_list_if_outer:
  "sum_list (map (\<lambda>y. if c then f y else (0 :: nat)) ys) = (if c then sum_list (map f ys) else 0)"
  by simp

lemma count_outcomes:
  assumes "common_weeks tr ph \<noteq> []" "bucket tr w \<noteq> []" "bucket ph w \<noteq> []"
  shows "length (filter (drew (\<lambda>(t, p, wk). wk = w \<and> pt t \<and> pp p))
        (outcomes M g (get_random_photo_and_song tr ph)))
     = length (filter (\<lambda>r. common_weeks tr ph ! (r mod length (common_weeks tr ph)) = w) [0..<M])
       * (length (filter (\<lambda>r. pt (bucket tr w ! (r mod length (bucket tr w)))) [0..<M])
          * length (filter (\<lambda>r. pp (bucket ph w ! (r mod length (bucket ph w)))) [0..<M]))"
  unfolding outcomes_def length_filter_concat map_map comp_def length_filter_map
    drew_draws[OF assms] length_filter_conj_const sum_list_if_outer sum_list_if_const
  by (rule refl)


lemma length_filter_mod_dvd:
  assumes "xs \<noteq> []" "length xs dvd M"
  shows "length (filter (\<lambda>r. P (xs ! (r mod length xs))) [0..<M])
     = (M div length xs) * length (filter P xs)"
  using length_filter_mod[OF assms(1), of P "M div length xs"] assms(2) by simp

lemma share_of_multiple:
  assumes "n dvd M" "0 < M"
  shows "(of_nat ((M div n) * c) :: rat) / of_nat M = of_nat c / of_nat n"
proof -
  from assms obtain q where q: "M = n * q" by (auto simp: dvd_def)
  with assms(2) have "0 < n" "0 < q" by auto
  then show ?thesis by (simp add: q)
qed

lemma length_filter_eq_count_list: "length (filter (\<lambda>x. x = y) xs) = count_list xs y"
  by (induction xs) simp_all

lemma length_filter_distinct_member:
  assumes "distinct xs" "w \<in> set xs"
  shows "length (filter (\<lambda>x. x = w) xs) = 1"
proof -
  have "length (filter (\<lambda>x. x = w) xs) = card ({x. x = w} \<inter> set xs)"
    using assms(1) by (rule distinct_length_filter)
  also have "{x. x = w} \<inter> set xs = {w}" using assms(2) by auto
  finally show ?thesis by simp
qed

lemma frequency_product:
  assumes M: "0 < M" and w: "w \<in> set (map fst tr) \<inter> set (map fst ph)"
    and k: "card (set (map fst tr) \<inter> set (map fst ph)) dvd M"
    and nt: "length (bucket tr w) dvd M" and np: "length (bucket ph w) dvd M"
  shows "frequency (outcomes M g (get_random_photo_and_song tr ph))
        (drew (\<lambda>(t, p, wk). wk = w \<and> pt t \<and> pp p))
     = 1 / of_nat (card (set (map fst tr) \<inter> set (map fst ph)))
       * (of_nat (length (filter pt (bucket tr w))) / of_nat (length (bucket tr w)))
       * (of_nat (length (filter pp (bucket ph w))) / of_nat (length (bucket ph w)))"
proof -
  let ?cw = "common_weeks tr ph"
  have len: "length ?cw = card (set (map fst tr) \<inter> set (map fst ph))"
    using distinct_card[OF distinct_common_weeks[of tr ph]] by (simp add: set_common_weeks)
  have wcw: "w \<in> set ?cw" using w by (simp add: set_common_weeks)
  then have cw: "?cw \<noteq> []" by auto
  have tw: "bucket tr w \<noteq> []" using nt M by (auto simp: dvd_def)
  have pw: "bucket ph w \<noteq> []" using np M by (auto simp: dvd_def)
  have kd: "length ?cw dvd M" using k by (simp only: len)
  define A where "A = (M div length ?cw) * 1"
  define B where "B = (M div length (bucket tr w)) * length (filter pt (bucket tr w))"
  define C where "C = (M div length (bucket ph w)) * length (filter pp (bucket ph w))"
  have a: "length (filter (\<lambda>r. ?cw ! (r mod length ?cw) = w) [0..<M]) = A"
    unfolding A_def length_filter_mod_dvd[OF cw kd, of "\<lambda>x. x = w"]
      length_filter_distinct_member[OF distinct_common_weeks wcw] by (rule refl)
  have b: "length (filter (\<lambda>r. pt (bucket tr w ! (r mod length (bucket tr w)))) [0..<M]) = B"
    unfolding B_def by (rule length_filter_mod_dvd[OF tw nt])
  have c: "length (filter (\<lambda>r. pp (bucket ph w ! (r mod length (bucket ph w)))) [0..<M]) = C"
    unfolding C_def by (rule length_filter_mod_dvd[OF pw np])
  have ra: "(of_nat A :: rat) / of_nat M = 1 / of_nat (length ?cw)"
    unfolding A_def using share_of_multiple[OF kd M, of 1] by simp
  have rb: "(of_nat B :: rat) / of_nat M
      = of_nat (length (filter pt (bucket tr w))) / of_nat (length (bucket tr w))"
    unfolding B_def by (rule share_of_multiple[OF nt M])
  have rc: "(of_nat C :: rat) / of_nat M
      = of_nat (length (filter pp (bucket ph w))) / of_nat (length (bucket ph w))"
    unfolding C_def by (rule share_of_multiple[OF np M])
  have "frequency (outcomes M g (get_random_photo_and_song tr ph))
        (drew (\<lambda>(t, p, wk). wk = w \<and> pt t \<and> pp p))
      = of_nat (A * (B * C)) / of_nat (M * M * M)"
    unfolding frequency_def length_outcomes count_outcomes[OF cw tw pw] a b c by (rule refl)
  also have "\<dots> = (of_nat A / of_nat M) * (of_nat B / of_nat M) * (of_nat C / of_nat M)"
    by simp
  finally show ?thesis
    unfolding ra rb rc len .
qed

text \<open>
  C3. Let the three numbers \<open>get_random_photo_and_song\<close> asks of the generator be
  independent and uniform below \<open>M\<close>, where the number of common weeks and the lengths
  of the two lists of week \<open>w\<close> divide \<open>M\<close>. Then \<open>w\<close>, a week present in both dicts, is
  drawn with probability one over the number of common weeks, whatever the sizes of its
  lists. Together with the week, a track is drawn with that probability times its number
  of occurrences in the week's track list over the length of the list, so that every
  entry of the list is equally likely given the week; likewise for the photo; and the
  track and the photo are drawn independently given the week.
\<close>

theorem sampling_is_uniform:
  assumes "0 < M" and "w \<in> set (map fst tr) \<inter> set (map fst ph)"
    and "card (set (map fst tr) \<inter> set (map fst ph)) dvd M"
    and "length (bucket tr w) dvd M" and "length (bucket ph w) dvd M"
  shows "frequency (outcomes M g (get_random_photo_and_song tr ph)) (drew (\<lambda>(t, p, wk). wk = w))
       = 1 / of_nat (card (set (map fst tr) \<inter> set (map fst ph)))
     \<and> (\<forall>tk. frequency (outcomes M g (get_random_photo_and_song tr ph))
            (drew (\<lambda>(t, p, wk). wk = w \<and> t = tk))
        = 1 / of_nat (card (set (map fst tr) \<inter> set (map fst ph)))
          * (of_nat (count_list (bucket tr w) tk) / of_nat (length (bucket tr w))))
     \<and> (\<forall>pk. frequency (outcomes M g (get_random_photo_and_song tr ph))
            (drew (\<lambda>(t, p, wk). wk = w \<and> p = pk))
        = 1 / of_nat (card (set (map fst tr) \<inter> set (map fst ph)))
          * (of_nat (count_list (bucket ph w) pk) / of_nat (length (bucket ph w))))
     \<and> (\<forall>tk pk. frequency (outcomes M g (get_random_photo_and_song tr ph))
            (drew (\<lambda>(t, p, wk). wk = w \<and> t = tk \<and> p = pk))
        = 1 / of_nat (card (set (map fst tr) \<inter> set (map fst ph)))
          * (of_nat (count_list (bucket tr w) tk) / of_nat (length (bucket tr w)))
          * (of_nat (count_list (bucket ph w) pk) / of_nat (length (bucket ph w))))"
proof -
  have tw: "bucket tr w \<noteq> []" using assms(1,4) by (auto simp: dvd_def)
  have pw: "bucket ph w \<noteq> []" using assms(1,5) by (auto simp: dvd_def)
  note fp = frequency_product[OF assms, of g]
  have 1: "frequency (outcomes M g (get_random_photo_and_song tr ph)) (drew (\<lambda>(t, p, wk). wk = w))
       = 1 / of_nat (card (set (map fst tr) \<inter> set (map fst ph)))"
    using fp[of "\<lambda>t. True" "\<lambda>p. True"] tw pw by simp
  have 2: "frequency (outcomes M g (get_random_photo_and_song tr ph))
            (drew (\<lambda>(t, p, wk). wk = w \<and> t = tk))
        = 1 / of_nat (card (set (map fst tr) \<inter> set (map fst ph)))
          * (of_nat (count_list (bucket tr w) tk) / of_nat (length (bucket tr w)))" for tk
    using fp[of "\<lambda>t. t = tk" "\<lambda>p. True"] pw by (simp add: length_filter_eq_count_list)
  have 3: "frequency (outcomes M g (get_random_photo_and_song tr ph))
            (drew (\<lambda>(t, p, wk). wk = w \<and> p = pk))
        = 1 / of_nat (card (set (map fst tr) \<inter> set (map fst ph)))
          * (of_nat (count_list (bucket ph w) pk) / of_nat (length (bucket ph w)))" for pk
    using fp[of "\<lambda>t. True" "\<lambda>p. p = pk"] tw by (simp add: length_filter_eq_count_list)
  have 4: "frequency (outcomes M g (get_random_photo_and_song tr ph))
            (drew (\<lambda>(t, p, wk). wk = w \<and> t = tk \<and> p = pk))
        = 1 / of_nat (card (set (map fst tr) \<inter> set (map fst ph)))
          * (of_nat (count_list (bucket tr w) tk) / of_nat (length (bucket tr w)))
          * (of_nat (count_list (bucket ph w) pk) / of_nat (length (bucket ph w)))" for tk pk
    using fp[of "\<lambda>t. t = tk" "\<lambda>p. p = pk"] by (simp add: length_filter_eq_count_list)
  show ?thesis
    using 1 2 3 4 by (intro conjI allI)
qed


theorem sampling_is_uniform_witness:
  "frequency (outcomes 6 (sconst 0) (get_random_photo_and_song
        [((2024 :: int, 10 :: int), [''a'', ''b'', ''c'']), ((2024, 11), [''d''])]
        [((2024 :: int, 10 :: int), [''x'']), ((2024, 11), [''y'', ''z'']), ((2024, 12), [''q''])]))
      (drew (\<lambda>(t, p, wk). wk = (2024, 10))) = 1 / 2
   \<and> frequency (outcomes 6 (sconst 0) (get_random_photo_and_song
        [((2024 :: int, 10 :: int), [''a'', ''b'', ''c'']), ((2024, 11), [''d''])]
        [((2024 :: int, 10 :: int), [''x'']), ((2024, 11), [''y'', ''z'']), ((2024, 12), [''q''])]))
      (drew (\<lambda>(t, p, wk). wk = (2024, 10) \<and> t = ''b'')) = 1 / 6
   \<and> frequency (outcomes 6 (sconst 0) (get_random_photo_and_song
        [((2024 :: int, 10 :: int), [''a'', ''b'', ''c'']), ((2024, 11), [''d''])]
        [((2024 :: int, 10 :: int), [''x'']), ((2024, 11), [''y'', ''z'']), ((2024, 12), [''q''])]))
      (drew (\<lambda>(t, p, wk). wk = (2024, 10) \<and> t = ''b'' \<and> p = ''x'')) = 1 / 6"
proof -
  let ?tr = "[((2024 :: int, 10 :: int), [''a'', ''b'', ''c'']), ((2024, 11), [''d''])]"
  let ?ph = "[((2024 :: int, 10 :: int), [''x'']), ((2024, 11), [''y'', ''z'']), ((2024, 12), [''q''])]"
  have s: "set (map fst ?tr) \<inter> set (map fst ?ph) = {(2024, 10), (2024, 11)}" by auto
  have c: "card (set (map fst ?tr) \<inter> set (map fst ?ph)) = 2" unfolding s by simp
  have bt: "bucket ?tr (2024, 10) = [''a'', ''b'', ''c'']" by (simp add: bucket_def)
  have bp: "bucket ?ph (2024, 10) = [''x'']" by (simp add: bucket_def)
  have h1: "(0 :: nat) < 6" by simp
  have h2: "(2024, 10) \<in> set (map fst ?tr) \<inter> set (map fst ?ph)" unfolding s by simp
  have h3: "card (set (map fst ?tr) \<inter> set (map fst ?ph)) dvd (6 :: nat)" unfolding c by simp
  have lt: "length [''a'', ''b'', ''c''] = 3" by simp
  have lp: "length [''x''] = 1" by simp
  have h4: "length (bucket ?tr (2024, 10)) dvd (6 :: nat)" unfolding bt lt by simp
  have h5: "length (bucket ?ph (2024, 10)) dvd (6 :: nat)" unfolding bp lp by simp
  note u = sampling_is_uniform[OF h1 h2 h3 h4 h5, of "sconst 0", unfolded c bt bp]
  from u have 1: "frequency (outcomes 6 (sconst 0) (get_random_photo_and_song ?tr ?ph))
      (drew (\<lambda>(t, p, wk). wk = (2024, 10))) = 1 / 2" by simp
  from u have "frequency (outcomes 6 (sconst 0) (get_random_photo_and_song ?tr ?ph))
      (drew (\<lambda>(t, p, wk). wk = (2024, 10) \<and> t = ''b''))
      = 1 / of_nat 2 * (of_nat (count_list [''a'', ''b'', ''c''] ''b'') / of_nat (length [''a'', ''b'', ''c'']))"
    by (elim conjE allE[of _ "''b''"])
  then have 2: "frequency (outcomes 6 (sconst 0) (get_random_photo_and_song ?tr ?ph))
      (drew (\<lambda>(t, p, wk). wk = (2024, 10) \<and> t = ''b'')) = 1 / 6" by simp
  from u have "frequency (outcomes 6 (sconst 0) (get_random_photo_and_song ?tr ?ph))
      (drew (\<lambda>(t, p, wk). wk = (2024, 10) \<and> t = ''b'' \<and> p = ''x''))
      = 1 / of_nat 2 * (of_nat (count_list [''a'', ''b'', ''c''] ''b'') / of_nat (length [''a'', ''b'', ''c'']))
        * (of_nat (count_list [''x''] ''x'') / of_nat (length [''x'']))"
    by blast
  then have 3: "frequency (outcomes 6 (sconst 0) (get_random_photo_and_song ?tr ?ph))
      (drew (\<lambda>(t, p, wk). wk = (2024, 10) \<and> t = ''b'' \<and> p = ''x'')) = 1 / 6" by simp
  show ?thesis using 1 2 3 by (intro conjI)
qed

end
